theory Spec2Isabelle
  imports Main "HOL-Library.AList" "HOL-Library.Sublist"
begin

section \<open>Entity model (types/uml)\<close>

text \<open>
  The TypeScript interfaces \<^verbatim>\<open>UMLAttribute\<close>, \<^verbatim>\<open>UMLClass\<close>, \<^verbatim>\<open>AssociationClass\<close> and
  \<^verbatim>\<open>Association\<close>. Field names carry a prefix (\<open>cls_\<close>, \<open>attr_\<close>, \<open>assoc_\<close>, \<open>ac_\<close>) because
  \<^verbatim>\<open>id\<close>, \<^verbatim>\<open>name\<close>, \<^verbatim>\<open>type\<close> and \<^verbatim>\<open>x\<close> would hide HOL names. A property marked \<^verbatim>\<open>?\<close> in
  the interface is an \<open>option\<close>; \<open>None\<close> is the absent (or \<^verbatim>\<open>undefined\<close>) property.
  \<^verbatim>\<open>UMLClass.position\<close> is declared mandatory, but the merge engine and the class node
  both test it for absence (\<^verbatim>\<open>aiClass.position || idMatch.position\<close>,
  \<^verbatim>\<open>umlClass.position?.x\<close>), so it is an \<open>option\<close> here as well. Coordinates are JSON
  numbers that the modelled functions only carry around; they are integers here.
\<close>

datatype DataType = DT_String | DT_Integer | DT_Boolean | DT_Double | DT_Long | DT_Date | DT_LocalDateTime

datatype RelationshipType = RT_association | RT_inheritance | RT_aggregation | RT_composition

datatype InheritanceType = IT_extends | IT_implements

record Position =
  pos_x :: int
  pos_y :: int

record UMLAttribute =
  attr_id :: string
  attr_name :: string
  attr_type :: DataType

record UMLClass =
  cls_id :: string
  cls_name :: string
  cls_attributes :: "UMLAttribute list"
  cls_position :: "Position option"

record AssociationClass =
  ac_id :: string
  ac_name :: string
  ac_attributes :: "UMLAttribute list"
  ac_position :: Position

record Association =
  assoc_id :: string
  fromClassId :: string
  toClassId :: string
  fromMultiplicity :: string
  toMultiplicity :: string
  relationshipType :: RelationshipType
  associationClass :: "AssociationClass option"
  inheritanceType :: "InheritanceType option"
  cascadeDelete :: "bool option"

section \<open>JavaScript built-ins used by the code\<close>

subsection \<open>Map: insertion-ordered, one entry per key\<close>

text \<open>
  A JavaScript \<^verbatim>\<open>Map\<close> iterates in insertion order. \<^verbatim>\<open>set\<close> on a key already present
  overwrites the value and keeps the entry's place; on a new key it appends. The model is an
  association list that is only built through these operations.
\<close>

type_synonym ('k, 'v) JSMap = "('k \<times> 'v) list"

fun Map_set :: "'k \<Rightarrow> 'v \<Rightarrow> ('k, 'v) JSMap \<Rightarrow> ('k, 'v) JSMap" where
  "Map_set k v [] = [(k, v)]"
| "Map_set k v (e # m) = (if fst e = k then (k, v) # m else e # Map_set k v m)"

fun Map_get :: "('k, 'v) JSMap \<Rightarrow> 'k \<Rightarrow> 'v option" where
  "Map_get [] k = None"
| "Map_get (e # m) k = (if fst e = k then Some (snd e) else Map_get m k)"

definition Map_delete :: "'k \<Rightarrow> ('k, 'v) JSMap \<Rightarrow> ('k, 'v) JSMap" where
  "Map_delete k m = filter (\<lambda>e. fst e \<noteq> k) m"

definition Map_values :: "('k, 'v) JSMap \<Rightarrow> 'v list" where
  "Map_values m = map snd m"

text \<open>\<^verbatim>\<open>new Map(entries)\<close>: the entries are \<^verbatim>\<open>set\<close> one after the other.\<close>

definition new_Map :: "('k \<times> 'v) list \<Rightarrow> ('k, 'v) JSMap" where
  "new_Map entries = foldl (\<lambda>m e. Map_set (fst e) (snd e) m) [] entries"

subsection \<open>Array.prototype.findIndex and filter with index\<close>

text \<open>\<^verbatim>\<open>findIndex\<close> returns the first index whose element satisfies the predicate, or \<open>-1\<close>.\<close>

fun findIndex :: "('a \<Rightarrow> bool) \<Rightarrow> 'a list \<Rightarrow> int" where
  "findIndex P [] = - 1"
| "findIndex P (a # as) =
     (if P a then 0 else (let r = findIndex P as in if r < 0 then - 1 else r + 1))"

text \<open>\<^verbatim>\<open>self.filter((el, index, self) => ...)\<close>: the callback sees the element, its index and
  the whole array.\<close>

definition filter_indexed :: "('a \<Rightarrow> nat \<Rightarrow> 'a list \<Rightarrow> bool) \<Rightarrow> 'a list \<Rightarrow> 'a list" where
  "filter_indexed f self = map snd (filter (\<lambda>(index, el). f el index self) (enumerate 0 self))"

subsection \<open>String.prototype.toLowerCase and String.prototype.trim\<close>

text \<open>
  A string is the list of the bytes of its UTF-8 encoding. \<^verbatim>\<open>String.prototype.toLowerCase\<close>
  follows the Unicode case mapping of the whole string, and \<^verbatim>\<open>String.prototype.trim\<close> removes
  the Unicode white space and line terminators at both ends. Both are library functions: the
  functions below that call them take them as the parameters \<open>toLowerCase\<close> and \<open>trim\<close>, and
  what is proved holds for every function in their place.

  On a string of ASCII characters the two library functions are the following ones: the
  letters \<^verbatim>\<open>A\<close> to \<^verbatim>\<open>Z\<close> (codes 65 to 90) are moved by 32, and the white space is the
  characters 9 to 13 and 32. The examples, whose strings are ASCII, are evaluated with them.
\<close>

definition toLowerCaseASCIIChar :: "char \<Rightarrow> char" where
  "toLowerCaseASCIIChar c =
     (let n = (of_char c :: nat) in if 65 \<le> n \<and> n \<le> 90 then char_of (n + 32) else c)"

definition toLowerCaseASCII :: "string \<Rightarrow> string" where
  "toLowerCaseASCII s = map toLowerCaseASCIIChar s"

definition isWhitespaceASCII :: "char \<Rightarrow> bool" where
  "isWhitespaceASCII c = ((of_char c :: nat) \<in> {9, 10, 11, 12, 13, 32})"

definition trimASCII :: "string \<Rightarrow> string" where
  "trimASCII s = rev (dropWhile isWhitespaceASCII (rev (dropWhile isWhitespaceASCII s)))"

section \<open>Deduplication by id\<close>

text \<open>
  The editor page filters every collection it receives (diagram load, realtime push,
  AI modification) with
  \<^verbatim>\<open>xs.filter((el, index, self) => index === self.findIndex(c => c.id === el.id))\<close>.
  The function is written once here, over the id selector.
\<close>

definition uniqueById :: "('a \<Rightarrow> 'k) \<Rightarrow> 'a list \<Rightarrow> 'a list" where
  "uniqueById key xs =
     filter_indexed (\<lambda>el index self. int index = findIndex (\<lambda>c. key c = key el) self) xs"

text \<open>
  The canvas (\<^verbatim>\<open>memoizedClasses\<close>, \<^verbatim>\<open>memoizedAssociations\<close>) filters with a \<^verbatim>\<open>seen\<close> set and
  logs a warning for each element it drops. The result is the kept list and the ids warned
  about, in order.
\<close>

fun filterSeen :: "('a \<Rightarrow> 'k) \<Rightarrow> 'k set \<Rightarrow> 'a list \<Rightarrow> 'a list \<times> 'k list" where
  "filterSeen key seen [] = ([], [])"
| "filterSeen key seen (el # els) =
     (if key el \<in> seen
      then (let (kept, warned) = filterSeen key seen els in (kept, key el # warned))
      else (let (kept, warned) = filterSeen key (insert (key el) seen) els in (el # kept, warned)))"

definition memoizedById :: "('a \<Rightarrow> 'k) \<Rightarrow> 'a list \<Rightarrow> 'a list" where
  "memoizedById key xs = fst (filterSeen key {} xs)"

section \<open>Diagram merge engine (lib/gemini-service.ts)\<close>

text \<open>
  \<^verbatim>\<open>{...existing, ...aiClass, position: aiClass.position || existing.position}\<close>: every
  property of the proposed class overrides the existing one; the position falls back to the
  existing one when the proposal has none.
\<close>

definition spreadClass :: "UMLClass \<Rightarrow> UMLClass \<Rightarrow> UMLClass" where
  "spreadClass existing aiClass =
     \<lparr>cls_id = cls_id aiClass, cls_name = cls_name aiClass,
      cls_attributes = cls_attributes aiClass,
      cls_position = (case cls_position aiClass of Some p \<Rightarrow> Some p | None \<Rightarrow> cls_position existing)\<rparr>"

text \<open>
  The state of the \<^verbatim>\<open>aiClasses.forEach\<close> loop: the two indexes and the list built so far.
  The names are lower-cased with the parameter \<open>toLowerCase\<close>.
\<close>

type_synonym ClassMergeState =
  "(string, UMLClass) JSMap \<times> (string, UMLClass) JSMap \<times> UMLClass list"

fun mergeClassStep ::
  "(string \<Rightarrow> string) \<Rightarrow> ClassMergeState \<Rightarrow> UMLClass \<Rightarrow> ClassMergeState" where
  "mergeClassStep toLowerCase (existingClassById, existingClassByName, mergedClasses) aiClass =
     (case Map_get existingClassById (cls_id aiClass) of
        Some idMatch \<Rightarrow>
          (Map_delete (cls_id aiClass) existingClassById,
           Map_delete (toLowerCase (cls_name idMatch)) existingClassByName,
           mergedClasses @ [spreadClass idMatch aiClass])
      | None \<Rightarrow>
          (case Map_get existingClassByName (toLowerCase (cls_name aiClass)) of
             Some nameMatch \<Rightarrow>
               (Map_delete (cls_id nameMatch) existingClassById,
                Map_delete (toLowerCase (cls_name nameMatch)) existingClassByName,
                mergedClasses @ [(spreadClass nameMatch aiClass)\<lparr>cls_id := cls_id nameMatch\<rparr>])
           | None \<Rightarrow> (existingClassById, existingClassByName, mergedClasses @ [aiClass])))"

definition initClassMerge :: "(string \<Rightarrow> string) \<Rightarrow> UMLClass list \<Rightarrow> ClassMergeState" where
  "initClassMerge toLowerCase existingClasses =
     (new_Map (map (\<lambda>cls. (cls_id cls, cls)) existingClasses),
      new_Map (map (\<lambda>cls. (toLowerCase (cls_name cls), cls)) existingClasses),
      [])"

text \<open>The list before the final pass: the loop's list, then the classes left in the id index.\<close>

definition mergedClassesList ::
  "(string \<Rightarrow> string) \<Rightarrow> UMLClass list \<Rightarrow> UMLClass list \<Rightarrow> UMLClass list" where
  "mergedClassesList toLowerCase existingClasses aiClasses =
     (case foldl (mergeClassStep toLowerCase) (initClassMerge toLowerCase existingClasses) aiClasses of
        (existingClassById, existingClassByName, mergedClasses) \<Rightarrow>
          mergedClasses @ Map_values existingClassById)"

text \<open>
  The final pass: every element is \<^verbatim>\<open>set\<close> into a fresh Map under its id, and the Map's values
  are the result.
\<close>

definition dedupViaMap :: "('a \<Rightarrow> 'k) \<Rightarrow> 'a list \<Rightarrow> 'a list" where
  "dedupViaMap key xs = Map_values (foldl (\<lambda>m el. Map_set (key el) el m) [] xs)"

text \<open>
  \<^verbatim>\<open>{...existing, ...aiAssoc}\<close>: the mandatory properties come from the proposal; an optional
  property comes from the proposal when it has it and from the existing association otherwise.
\<close>

definition spreadAssoc :: "Association \<Rightarrow> Association \<Rightarrow> Association" where
  "spreadAssoc existing aiAssoc =
     \<lparr>assoc_id = assoc_id aiAssoc, fromClassId = fromClassId aiAssoc,
      toClassId = toClassId aiAssoc, fromMultiplicity = fromMultiplicity aiAssoc,
      toMultiplicity = toMultiplicity aiAssoc, relationshipType = relationshipType aiAssoc,
      associationClass =
        (case associationClass aiAssoc of Some v \<Rightarrow> Some v | None \<Rightarrow> associationClass existing),
      inheritanceType =
        (case inheritanceType aiAssoc of Some v \<Rightarrow> Some v | None \<Rightarrow> inheritanceType existing),
      cascadeDelete =
        (case cascadeDelete aiAssoc of Some v \<Rightarrow> Some v | None \<Rightarrow> cascadeDelete existing)\<rparr>"

type_synonym AssocMergeState = "(string, Association) JSMap \<times> Association list"

fun mergeAssocStep :: "AssocMergeState \<Rightarrow> Association \<Rightarrow> AssocMergeState" where
  "mergeAssocStep (existingAssocById, mergedAssociations) aiAssoc =
     (case Map_get existingAssocById (assoc_id aiAssoc) of
        Some existing \<Rightarrow>
          (Map_delete (assoc_id aiAssoc) existingAssocById,
           mergedAssociations @ [spreadAssoc existing aiAssoc])
      | None \<Rightarrow> (existingAssocById, mergedAssociations @ [aiAssoc]))"

definition initAssocMerge :: "Association list \<Rightarrow> AssocMergeState" where
  "initAssocMerge existingAssociations =
     (new_Map (map (\<lambda>assoc. (assoc_id assoc, assoc)) existingAssociations), [])"

definition mergedAssociationsList :: "Association list \<Rightarrow> Association list \<Rightarrow> Association list" where
  "mergedAssociationsList existingAssociations aiAssociations =
     (case foldl mergeAssocStep (initAssocMerge existingAssociations) aiAssociations of
        (existingAssocById, mergedAssociations) \<Rightarrow>
          mergedAssociations @ Map_values existingAssocById)"

record MergeResult =
  mergedClasses :: "UMLClass list"
  mergedAssociations :: "Association list"

definition mergeDiagramModifications ::
  "(string \<Rightarrow> string) \<Rightarrow> UMLClass list \<Rightarrow> Association list \<Rightarrow> UMLClass list \<Rightarrow>
   Association list \<Rightarrow> MergeResult" where
  "mergeDiagramModifications toLowerCase existingClasses existingAssociations aiClasses aiAssociations =
     \<lparr>mergedClasses = dedupViaMap cls_id (mergedClassesList toLowerCase existingClasses aiClasses),
      mergedAssociations =
        dedupViaMap assoc_id (mergedAssociationsList existingAssociations aiAssociations)\<rparr>"

text \<open>Endpoint integrity of a diagram: both ends of every association are ids of its classes.\<close>

definition endpointIntegrity :: "UMLClass list \<Rightarrow> Association list \<Rightarrow> bool" where
  "endpointIntegrity cs as =
     (\<forall>a \<in> set as. fromClassId a \<in> cls_id ` set cs \<and> toClassId a \<in> cls_id ` set cs)"

section \<open>Editor state and its operations (app/editor/page.tsx)\<close>

record EditorState =
  classes :: "UMLClass list"
  associations :: "Association list"
  selectedClass :: "string option"

text \<open>\<^verbatim>\<open>removeClass\<close>: two state updaters and the reset of the selection. The page holds
  more than these three fields (see below); the function leaves the others alone.\<close>

definition removeClass :: "string \<Rightarrow> 'a EditorState_scheme \<Rightarrow> 'a EditorState_scheme" where
  "removeClass ident st =
     st\<lparr>classes := filter (\<lambda>cls. cls_id cls \<noteq> ident) (classes st),
        associations :=
          filter (\<lambda>assoc. fromClassId assoc \<noteq> ident \<and> toClassId assoc \<noteq> ident) (associations st),
        selectedClass := (if selectedClass st = Some ident then None else selectedClass st)\<rparr>"

section \<open>Realtime snapshots and dragging (app/editor/page.tsx)\<close>

text \<open>\<^verbatim>\<open>Partial<UMLClass>\<close> and the spread \<^verbatim>\<open>{...cls, ...updatedClass}\<close>.\<close>

record ClassPatch =
  patch_id :: "string option"
  patch_name :: "string option"
  patch_attributes :: "UMLAttribute list option"
  patch_position :: "Position option"

definition applyPatch :: "UMLClass \<Rightarrow> ClassPatch \<Rightarrow> UMLClass" where
  "applyPatch cls updatedClass =
     \<lparr>cls_id = (case patch_id updatedClass of Some v \<Rightarrow> v | None \<Rightarrow> cls_id cls),
      cls_name = (case patch_name updatedClass of Some v \<Rightarrow> v | None \<Rightarrow> cls_name cls),
      cls_attributes =
        (case patch_attributes updatedClass of Some v \<Rightarrow> v | None \<Rightarrow> cls_attributes cls),
      cls_position =
        (case patch_position updatedClass of Some v \<Rightarrow> Some v | None \<Rightarrow> cls_position cls)\<rparr>"

text \<open>
  The page keeps, besides the diagram, the ref \<^verbatim>\<open>isDraggingRef\<close> and the ref
  \<^verbatim>\<open>dragTimeoutRef\<close> of the timer that resets it. \<^verbatim>\<open>setTimeout\<close> is modelled by a queue
  of pending timers, each with a handle, the time at which it is due (milliseconds on the
  page's clock) and what its callback does. A timer fires at its due time, before anything
  that is delivered at that time or later; timers due at the same time fire in the order in
  which they were set. Timer handles are positive numbers (or objects), hence truthy.
\<close>

datatype TimerAction = ApplyClassPatch string ClassPatch | ResetDragFlag

record Timer =
  tm_handle :: nat
  tm_due :: nat
  tm_action :: TimerAction

record PageState = EditorState +
  isDraggingRef :: bool
  dragTimeoutRef :: "nat option"
  timers :: "Timer list"
  nextHandle :: nat
  clock :: nat

fun enqueueTimer :: "Timer \<Rightarrow> Timer list \<Rightarrow> Timer list" where
  "enqueueTimer tm [] = [tm]"
| "enqueueTimer tm (u # us) =
     (if tm_due tm < tm_due u then tm # u # us else u # enqueueTimer tm us)"

definition setTimeout :: "TimerAction \<Rightarrow> nat \<Rightarrow> PageState \<Rightarrow> PageState" where
  "setTimeout callback delay st =
     st\<lparr>timers :=
          enqueueTimer \<lparr>tm_handle = nextHandle st, tm_due = clock st + delay, tm_action = callback\<rparr>
            (timers st),
        nextHandle := Suc (nextHandle st)\<rparr>"

definition clearTimeout :: "nat \<Rightarrow> PageState \<Rightarrow> PageState" where
  "clearTimeout h st = st\<lparr>timers := filter (\<lambda>tm. tm_handle tm \<noteq> h) (timers st)\<rparr>"

text \<open>
  \<^verbatim>\<open>updateClass(id, updatedClass)\<close>. With a position in the patch (a drag) the flag is set,
  the state update is deferred by \<^verbatim>\<open>setTimeout(..., 0)\<close>, a pending reset timer is cleared
  and a new one is set for 200 ms later. Without a position only the state update is deferred.
\<close>

definition updateClass :: "string \<Rightarrow> ClassPatch \<Rightarrow> PageState \<Rightarrow> PageState" where
  "updateClass ident updatedClass st =
     (if patch_position updatedClass \<noteq> None then
        let st1 = st\<lparr>isDraggingRef := True\<rparr>;
            st2 = setTimeout (ApplyClassPatch ident updatedClass) 0 st1;
            st3 = (case dragTimeoutRef st2 of Some h \<Rightarrow> clearTimeout h st2 | None \<Rightarrow> st2);
            st4 = setTimeout ResetDragFlag 200 st3
        in st4\<lparr>dragTimeoutRef := Some (nextHandle st3)\<rparr>
      else setTimeout (ApplyClassPatch ident updatedClass) 0 st)"

text \<open>The two timer callbacks of \<^verbatim>\<open>updateClass\<close>.\<close>

definition fireTimer :: "PageState \<Rightarrow> Timer \<Rightarrow> PageState" where
  "fireTimer st tm =
     (case tm_action tm of
        ApplyClassPatch ident updatedClass \<Rightarrow>
          st\<lparr>classes :=
               (case find (\<lambda>c. cls_id c = ident) (classes st) of
                  None \<Rightarrow> classes st
                | Some existingClass \<Rightarrow>
                    map (\<lambda>cls. if cls_id cls = ident then applyPatch cls updatedClass else cls)
                      (classes st))\<rparr>
      | ResetDragFlag \<Rightarrow> st\<lparr>isDraggingRef := False, dragTimeoutRef := None\<rparr>)"

text \<open>Time passes up to \<open>t\<close>: the timers due by then fire, in queue order.\<close>

definition advanceTo :: "nat \<Rightarrow> PageState \<Rightarrow> PageState" where
  "advanceTo t st =
     (foldl fireTimer (st\<lparr>timers := filter (\<lambda>tm. \<not> tm_due tm \<le> t) (timers st)\<rparr>)
        (filter (\<lambda>tm. tm_due tm \<le> t) (timers st)))\<lparr>clock := max t (clock st)\<rparr>"

text \<open>
  \<^verbatim>\<open>handleRealtimeUpdate(newClasses, newAssociations)\<close>. \<^verbatim>\<open>JSON.stringify\<close> is a parameter,
  one serializer for each of the two collections.
\<close>

definition handleRealtimeUpdate ::
  "(UMLClass list \<Rightarrow> string) \<Rightarrow> (Association list \<Rightarrow> string) \<Rightarrow>
   UMLClass list \<Rightarrow> Association list \<Rightarrow> PageState \<Rightarrow> PageState" where
  "handleRealtimeUpdate stringifyClasses stringifyAssociations newClasses newAssociations st =
     (if \<not> isDraggingRef st then
        let uniqueClasses = uniqueById cls_id newClasses;
            uniqueAssociations = uniqueById assoc_id newAssociations
        in st\<lparr>classes :=
                 (if stringifyClasses (classes st) \<noteq> stringifyClasses uniqueClasses
                  then uniqueClasses else classes st),
               associations :=
                 (if stringifyAssociations (associations st) \<noteq> stringifyAssociations uniqueAssociations
                  then uniqueAssociations else associations st)\<rparr>
      else st)"

text \<open>\<^verbatim>\<open>handleModifyDiagram\<close> of the page: replace the whole diagram, deduplicated.\<close>

definition handleModifyDiagram :: "UMLClass list \<Rightarrow> Association list \<Rightarrow> PageState \<Rightarrow> PageState" where
  "handleModifyDiagram newClasses newAssociations st =
     st\<lparr>classes := uniqueById cls_id newClasses,
        associations := uniqueById assoc_id newAssociations\<rparr>"

text \<open>\<^verbatim>\<open>handleGenerateClasses\<close> and \<^verbatim>\<open>handleGenerateAssociations\<close>: append what is new.\<close>

definition handleGenerateClasses :: "UMLClass list \<Rightarrow> PageState \<Rightarrow> PageState" where
  "handleGenerateClasses newClasses st =
     st\<lparr>classes := classes st
          @ filter (\<lambda>cls. cls_id cls \<notin> set (map cls_id (classes st))) newClasses\<rparr>"

definition handleGenerateAssociations :: "Association list \<Rightarrow> PageState \<Rightarrow> PageState" where
  "handleGenerateAssociations newAssociations st =
     st\<lparr>associations := associations st
          @ filter (\<lambda>assoc. assoc_id assoc \<notin> set (map assoc_id (associations st))) newAssociations\<rparr>"

text \<open>The other editing callbacks of the page.\<close>

definition addClass :: "UMLClass \<Rightarrow> PageState \<Rightarrow> PageState" where
  "addClass newClass st =
     (if cls_id newClass \<in> set (map cls_id (classes st)) then st
      else st\<lparr>classes := classes st @ [newClass]\<rparr>)"

definition addAssociation :: "Association \<Rightarrow> PageState \<Rightarrow> PageState" where
  "addAssociation association st =
     (if assoc_id association \<in> set (map assoc_id (associations st)) then st
      else st\<lparr>associations := associations st @ [association]\<rparr>)"

definition updateAssociation :: "Association \<Rightarrow> PageState \<Rightarrow> PageState" where
  "updateAssociation updatedAssociation st =
     st\<lparr>associations :=
          map (\<lambda>assoc. if assoc_id assoc = assoc_id updatedAssociation then updatedAssociation
                        else assoc) (associations st)\<rparr>"

definition removeAssociation :: "string \<Rightarrow> PageState \<Rightarrow> PageState" where
  "removeAssociation ident st =
     st\<lparr>associations := filter (\<lambda>assoc. assoc_id assoc \<noteq> ident) (associations st)\<rparr>"

text \<open>At most one timer that resets the drag flag is pending, and \<^verbatim>\<open>dragTimeoutRef\<close> holds it.\<close>

definition resetTimers :: "PageState \<Rightarrow> Timer list" where
  "resetTimers st = filter (\<lambda>tm. tm_action tm = ResetDragFlag) (timers st)"

definition resetTimerTracked :: "PageState \<Rightarrow> bool" where
  "resetTimerTracked st =
     (case resetTimers st of
        [] \<Rightarrow> True
      | [tm] \<Rightarrow> dragTimeoutRef st = Some (tm_handle tm)
      | _ \<Rightarrow> False)"

text \<open>
  What happens on the page, each with the time at which it happens: the user's edits and
  the snapshots pushed by the realtime channel. Before an event is handled, the timers due
  by its time have fired.
\<close>

datatype PageEvent =
    AddClassEv UMLClass
  | UpdateClassEv string ClassPatch
  | RemoveClassEv string
  | AddAssociationEv Association
  | UpdateAssociationEv Association
  | RemoveAssociationEv string
  | GenerateClassesEv "UMLClass list"
  | GenerateAssociationsEv "Association list"
  | ModifyDiagramEv "UMLClass list" "Association list"
  | RealtimeUpdateEv "UMLClass list" "Association list"

definition handleEvent ::
  "(UMLClass list \<Rightarrow> string) \<Rightarrow> (Association list \<Rightarrow> string) \<Rightarrow>
   PageEvent \<Rightarrow> PageState \<Rightarrow> PageState" where
  "handleEvent stringifyClasses stringifyAssociations ev s =
     (case ev of
        AddClassEv newClass \<Rightarrow> addClass newClass s
      | UpdateClassEv ident updatedClass \<Rightarrow> updateClass ident updatedClass s
      | RemoveClassEv ident \<Rightarrow> removeClass ident s
      | AddAssociationEv association \<Rightarrow> addAssociation association s
      | UpdateAssociationEv updatedAssociation \<Rightarrow> updateAssociation updatedAssociation s
      | RemoveAssociationEv ident \<Rightarrow> removeAssociation ident s
      | GenerateClassesEv newClasses \<Rightarrow> handleGenerateClasses newClasses s
      | GenerateAssociationsEv newAssociations \<Rightarrow> handleGenerateAssociations newAssociations s
      | ModifyDiagramEv newClasses newAssociations \<Rightarrow>
          handleModifyDiagram newClasses newAssociations s
      | RealtimeUpdateEv newClasses newAssociations \<Rightarrow>
          handleRealtimeUpdate stringifyClasses stringifyAssociations newClasses newAssociations s)"

definition pageStep ::
  "(UMLClass list \<Rightarrow> string) \<Rightarrow> (Association list \<Rightarrow> string) \<Rightarrow>
   PageState \<Rightarrow> nat \<times> PageEvent \<Rightarrow> PageState" where
  "pageStep stringifyClasses stringifyAssociations st tev =
     handleEvent stringifyClasses stringifyAssociations (snd tev) (advanceTo (fst tev) st)"

definition pageRun ::
  "(UMLClass list \<Rightarrow> string) \<Rightarrow> (Association list \<Rightarrow> string) \<Rightarrow>
   PageState \<Rightarrow> (nat \<times> PageEvent) list \<Rightarrow> PageState" where
  "pageRun stringifyClasses stringifyAssociations st evs =
     foldl (pageStep stringifyClasses stringifyAssociations) st evs"

text \<open>A drag update is an \<^verbatim>\<open>updateClass\<close> whose patch has a position; the time of the last one.\<close>

fun isDragUpdate :: "PageEvent \<Rightarrow> bool" where
  "isDragUpdate (UpdateClassEv ident updatedClass) = (patch_position updatedClass \<noteq> None)"
| "isDragUpdate _ = False"

definition lastDragTime :: "(nat \<times> PageEvent) list \<Rightarrow> nat option" where
  "lastDragTime evs =
     (let drags = filter (\<lambda>tev. isDragUpdate (snd tev)) evs
      in if drags = [] then None else Some (fst (last drags)))"

definition initialPage :: PageState where
  "initialPage =
     \<lparr>classes = [], associations = [], selectedClass = None, isDraggingRef = False,
      dragTimeoutRef = None, timers = [], nextHandle = 1, clock = 0\<rparr>"

section \<open>Realtime channel (the hook useRealtimeSync)\<close>

subsection \<open>Incoming messages\<close>

record DiagramData =
  dd_classes :: "UMLClass list option"
  dd_associations :: "Association list option"

record DiagramUpdate =
  upd_type :: string
  upd_diagram_id :: string
  upd_diagram_data :: "DiagramData option"
  upd_timestamp :: string
  upd_user_id :: "string option"

text \<open>A string is truthy when it is present and not empty.\<close>

definition truthy :: "string option \<Rightarrow> bool" where
  "truthy v = (case v of None \<Rightarrow> False | Some s \<Rightarrow> s \<noteq> [])"

text \<open>
  \<^verbatim>\<open>eventSource.onmessage\<close>. \<^verbatim>\<open>String.prototype.trim\<close> and \<^verbatim>\<open>JSON.parse\<close> are parameters;
  \<open>None\<close> is a parse that throws, which the handler catches. The result is the pair of
  arguments with which \<^verbatim>\<open>onUpdate\<close> is called, or \<open>None\<close> when it is not called.
\<close>

definition onmessage ::
  "(string \<Rightarrow> string) \<Rightarrow> (string \<Rightarrow> DiagramUpdate option) \<Rightarrow> string option \<Rightarrow> string \<Rightarrow>
   (UMLClass list \<times> Association list) option" where
  "onmessage trim JSON_parse currentUserId event_data =
     (if trim event_data = [] \<or> take 1 event_data = '':'' then None
      else case JSON_parse event_data of
             None \<Rightarrow> None
           | Some d \<Rightarrow>
               if upd_type d = ''update'' \<and> upd_diagram_data d \<noteq> None then
                 if truthy (upd_user_id d) \<and> upd_user_id d = currentUserId then None
                 else Some
                   (case upd_diagram_data d of
                      Some diagram_data \<Rightarrow>
                        (case dd_classes diagram_data of Some cs \<Rightarrow> cs | None \<Rightarrow> [])
                    | None \<Rightarrow> [],
                    case upd_diagram_data d of
                      Some diagram_data \<Rightarrow>
                        (case dd_associations diagram_data of Some as \<Rightarrow> as | None \<Rightarrow> [])
                    | None \<Rightarrow> [])
               else None)"

text \<open>The page passes \<^verbatim>\<open>handleRealtimeUpdate\<close> as \<^verbatim>\<open>onUpdate\<close> and \<^verbatim>\<open>user?.id\<close> as
  \<^verbatim>\<open>currentUserId\<close>.\<close>

definition receiveMessage ::
  "(string \<Rightarrow> string) \<Rightarrow> (string \<Rightarrow> DiagramUpdate option) \<Rightarrow> (UMLClass list \<Rightarrow> string) \<Rightarrow>
   (Association list \<Rightarrow> string) \<Rightarrow> string option \<Rightarrow> string \<Rightarrow> PageState \<Rightarrow> PageState" where
  "receiveMessage trim JSON_parse stringifyClasses stringifyAssociations currentUserId event_data st =
     (case onmessage trim JSON_parse currentUserId event_data of
        None \<Rightarrow> st
      | Some args \<Rightarrow>
          handleRealtimeUpdate stringifyClasses stringifyAssociations (fst args) (snd args) st)"

subsection \<open>Connection and reconnection\<close>

text \<open>
  The refs of the hook, the number of \<^verbatim>\<open>EventSource\<close> objects created so far, and the pending
  reconnect timers, each with its handle and its delay. The ready state that \<^verbatim>\<open>onerror\<close>
  reads from the event source is given with the event.
\<close>

datatype ReadyState = CONNECTING | OPEN | CLOSED

record SyncState =
  eventSourceRef :: "nat option"
  sourcesCreated :: nat
  reconnectTimeoutRef :: "nat option"
  reconnectAttemptsRef :: nat
  is404ErrorRef :: bool
  reconnectTimers :: "(nat \<times> nat) list"
  nextReconnectHandle :: nat

definition maxReconnectAttempts :: nat where
  "maxReconnectAttempts = 5"

text \<open>\<^verbatim>\<open>Math.min(1000 * Math.pow(2, attempts), 10000)\<close>\<close>

definition reconnectDelay :: "nat \<Rightarrow> nat" where
  "reconnectDelay attempts = min (1000 * 2 ^ attempts) 10000"

definition connect :: "SyncState \<Rightarrow> SyncState" where
  "connect st =
     (if is404ErrorRef st then st
      else st\<lparr>eventSourceRef := Some (sourcesCreated st), sourcesCreated := Suc (sourcesCreated st)\<rparr>)"

text \<open>\<^verbatim>\<open>if (reconnectTimeoutRef.current) { clearTimeout(...); reconnectTimeoutRef.current = null }\<close>\<close>

definition clearReconnectTimeout :: "SyncState \<Rightarrow> SyncState" where
  "clearReconnectTimeout st =
     (case reconnectTimeoutRef st of
        Some h \<Rightarrow> st\<lparr>reconnectTimers := filter (\<lambda>tm. fst tm \<noteq> h) (reconnectTimers st),
                     reconnectTimeoutRef := None\<rparr>
      | None \<Rightarrow> st)"

definition onopen :: "SyncState \<Rightarrow> SyncState" where
  "onopen st = clearReconnectTimeout (st\<lparr>reconnectAttemptsRef := 0, is404ErrorRef := False\<rparr>)"

definition onerror :: "ReadyState \<Rightarrow> SyncState \<Rightarrow> SyncState" where
  "onerror readyState st =
     (if readyState = CLOSED then
        if reconnectAttemptsRef st = 0 then st\<lparr>is404ErrorRef := True\<rparr>
        else if \<not> is404ErrorRef st \<and> reconnectAttemptsRef st < maxReconnectAttempts then
          st\<lparr>reconnectAttemptsRef := reconnectAttemptsRef st + 1,
             reconnectTimers := reconnectTimers st
               @ [(nextReconnectHandle st, reconnectDelay (reconnectAttemptsRef st + 1))],
             reconnectTimeoutRef := Some (nextReconnectHandle st),
             nextReconnectHandle := Suc (nextReconnectHandle st)\<rparr>
        else st
      else st)"

text \<open>The effect body; \<open>target\<close> says whether the hook is enabled with a usable diagram id.\<close>

definition effectRun :: "bool \<Rightarrow> SyncState \<Rightarrow> SyncState" where
  "effectRun target st =
     (if \<not> target then st\<lparr>eventSourceRef := None\<rparr>
      else connect (st\<lparr>is404ErrorRef := False, reconnectAttemptsRef := 0\<rparr>))"

definition effectCleanup :: "SyncState \<Rightarrow> SyncState" where
  "effectCleanup st =
     (clearReconnectTimeout (st\<lparr>eventSourceRef := None\<rparr>))
       \<lparr>is404ErrorRef := False, reconnectAttemptsRef := 0\<rparr>"

text \<open>A reconnect timer fires: its callback calls \<^verbatim>\<open>connect()\<close>.\<close>

definition reconnectTimerFires :: "nat \<Rightarrow> SyncState \<Rightarrow> SyncState" where
  "reconnectTimerFires h st =
     (if h \<in> fst ` set (reconnectTimers st)
      then connect (st\<lparr>reconnectTimers := filter (\<lambda>tm. fst tm \<noteq> h) (reconnectTimers st)\<rparr>)
      else st)"

datatype SyncEvent =
    EffectRun bool
  | EffectCleanup
  | OnOpen
  | OnError ReadyState
  | ReconnectTimerFires nat

fun syncStep :: "SyncState \<Rightarrow> SyncEvent \<Rightarrow> SyncState" where
  "syncStep st (EffectRun target) = effectRun target st"
| "syncStep st EffectCleanup = effectCleanup st"
| "syncStep st OnOpen = onopen st"
| "syncStep st (OnError readyState) = onerror readyState st"
| "syncStep st (ReconnectTimerFires h) = reconnectTimerFires h st"

definition syncRun :: "SyncState \<Rightarrow> SyncEvent list \<Rightarrow> SyncState" where
  "syncRun st evs = foldl syncStep st evs"

definition initialSync :: SyncState where
  "initialSync =
     \<lparr>eventSourceRef = None, sourcesCreated = 0, reconnectTimeoutRef = None,
      reconnectAttemptsRef = 0, is404ErrorRef = False, reconnectTimers = [],
      nextReconnectHandle = 1\<rparr>"

section \<open>Modifying a diagram through the AI service\<close>

subsection \<open>modifyExistingDiagram (lib/gemini-service.ts)\<close>

record Diagram =
  d_classes :: "UMLClass list"
  d_associations :: "Association list"

record GenerateDiagramResponse =
  success :: bool
  diagram :: "Diagram option"
  message :: string
  error :: "string option"

text \<open>
  What \<^verbatim>\<open>validateUMLDiagramJSON\<close> returns. The validator checks the classes always, and the
  associations under \<^verbatim>\<open>if (data.associations)\<close> only: a response whose \<^verbatim>\<open>associations\<close> is absent
  (or \<^verbatim>\<open>null\<close>, or another falsy value) is valid, and the diagram returned with it has no
  array of associations; that is \<open>None\<close> here.
\<close>

record UMLDiagramJSON =
  json_classes :: "UMLClass list"
  json_associations :: "Association list option"

record ValidationResult =
  isValid :: bool
  v_diagram :: "UMLDiagramJSON option"
  v_error :: "string option"

text \<open>
  What the \<^verbatim>\<open>catch\<close> block reads from a thrown value: \<^verbatim>\<open>error?.error?.code\<close>,
  \<^verbatim>\<open>error?.error?.status\<close>, whether it is an \<^verbatim>\<open>Error\<close>, and its \<^verbatim>\<open>message\<close>.
\<close>

record Thrown =
  thrown_code :: "int option"
  thrown_status :: "string option"
  thrown_isError :: bool
  thrown_message :: "string option"

text \<open>
  The service call with its retries, the clean-up of the text and its validation are outside
  the function's own logic: their outcome is either a thrown value or a validation result.
\<close>

datatype AIOutcome = Throws Thrown | Validated ValidationResult

fun showNat :: "nat \<Rightarrow> string" where
  "showNat n =
     (if n < 10 then [char_of (48 + n)] else showNat (n div 10) @ [char_of (48 + n mod 10)])"

text \<open>\<^verbatim>\<open>String.prototype.includes\<close>\<close>

fun includesStr :: "string \<Rightarrow> string \<Rightarrow> bool" where
  "includesStr [] sub = (sub = [])"
| "includesStr (c # cs) sub = (take (length sub) (c # cs) = sub \<or> includesStr cs sub)"

text \<open>The association objects passed to the merge carry the six mandatory properties only;
  an empty multiplicity falls back to \<^verbatim>\<open>"1"\<close>.\<close>

definition toAiAssociation :: "Association \<Rightarrow> Association" where
  "toAiAssociation assoc =
     \<lparr>assoc_id = assoc_id assoc, fromClassId = fromClassId assoc, toClassId = toClassId assoc,
      fromMultiplicity = (if fromMultiplicity assoc = [] then ''1'' else fromMultiplicity assoc),
      toMultiplicity = (if toMultiplicity assoc = [] then ''1'' else toMultiplicity assoc),
      relationshipType = relationshipType assoc,
      associationClass = None, inheritanceType = None, cascadeDelete = None\<rparr>"

text \<open>The texts with accented letters are written with the bytes of their UTF-8 encoding.\<close>

definition msgOverloaded :: string where
  "msgOverloaded = ''El modelo de IA est'' @ [char_of (195::nat), char_of (161::nat)]
     @ '' sobrecargado. Por favor, intenta de nuevo en unos momentos.''"

definition msgRateLimit :: string where
  "msgRateLimit = ''Has excedido el l'' @ [char_of (195::nat), char_of (173::nat)]
     @ ''mite de solicitudes. Por favor, espera un momento antes de intentar de nuevo.''"

definition msgAuth :: string where
  "msgAuth = ''Error de autenticaci'' @ [char_of (195::nat), char_of (179::nat)]
     @ ''n con el servicio de IA. Verifica tu API key.''"

definition detailRateLimit :: string where
  "detailRateLimit = ''L'' @ [char_of (195::nat), char_of (173::nat)] @ ''mite de tasa excedido''"

definition detailAuth :: string where
  "detailAuth = ''Error de autenticaci'' @ [char_of (195::nat), char_of (179::nat)] @ ''n''"

text \<open>The \<^verbatim>\<open>catch\<close> block of \<^verbatim>\<open>modifyExistingDiagram\<close>.\<close>

definition modifyExistingDiagramCatch :: "Thrown \<Rightarrow> GenerateDiagramResponse" where
  "modifyExistingDiagramCatch e =
     (let detailedError =
            (if thrown_isError e
             then (case thrown_message e of Some m \<Rightarrow> m | None \<Rightarrow> [])
             else ''Unknown error'')
      in if thrown_code e = Some 503 \<or> thrown_status e = Some ''UNAVAILABLE''
            \<or> (case thrown_message e of Some m \<Rightarrow> includesStr m ''overloaded'' | None \<Rightarrow> False)
            \<or> includesStr detailedError ''overloaded''
         then \<lparr>success = False, diagram = None, message = msgOverloaded,
               error = Some ''Modelo sobrecargado - Servicio temporalmente no disponible''\<rparr>
         else if thrown_code e = Some 429
         then \<lparr>success = False, diagram = None, message = msgRateLimit,
               error = Some detailRateLimit\<rparr>
         else if thrown_code e = Some 401 \<or> thrown_code e = Some 403
         then \<lparr>success = False, diagram = None, message = msgAuth,
               error = Some detailAuth\<rparr>
         else \<lparr>success = False, diagram = None,
               message = ''Error modifying diagram with AI service'',
               error = Some detailedError\<rparr>)"

text \<open>
  The \<^verbatim>\<open>TypeError\<close> that \<^verbatim>\<open>validation.diagram.associations.map(...)\<close> raises when the valid
  diagram has no array of associations: an \<^verbatim>\<open>Error\<close> without an \<^verbatim>\<open>error\<close> property, whose message
  is the engine's.
\<close>

definition mapTypeError :: "string \<Rightarrow> Thrown" where
  "mapTypeError engineMessage =
     \<lparr>thrown_code = None, thrown_status = None, thrown_isError = True,
      thrown_message = Some engineMessage\<rparr>"

text \<open>
  \<^verbatim>\<open>modifyExistingDiagram\<close>, from the outcome of the service call and the validation on. The
  \<^verbatim>\<open>TypeError\<close> raised inside the \<^verbatim>\<open>try\<close> block is caught by the function's own \<^verbatim>\<open>catch\<close> block.
\<close>

definition modifyExistingDiagram ::
  "(string \<Rightarrow> string) \<Rightarrow> string \<Rightarrow> UMLClass list \<Rightarrow> Association list \<Rightarrow> AIOutcome \<Rightarrow>
   GenerateDiagramResponse" where
  "modifyExistingDiagram toLowerCase engineMessage existingClasses existingAssociations outcome =
     (case outcome of
        Validated validation \<Rightarrow>
          (case (if isValid validation then v_diagram validation else None) of
             Some d \<Rightarrow>
               (case json_associations d of
                  Some assocs \<Rightarrow>
                    let aiClasses = json_classes d;
                        aiAssociations = map toAiAssociation assocs;
                        merged = mergeDiagramModifications toLowerCase existingClasses
                                   existingAssociations aiClasses aiAssociations
                    in \<lparr>success = True,
                        diagram = Some \<lparr>d_classes = mergedClasses merged,
                                        d_associations = mergedAssociations merged\<rparr>,
                        message = ''Successfully modified diagram: ''
                          @ showNat (length (mergedClasses merged)) @ '' classes and ''
                          @ showNat (length (mergedAssociations merged)) @ '' associations'',
                        error = None\<rparr>
                | None \<Rightarrow> modifyExistingDiagramCatch (mapTypeError engineMessage))
           | None \<Rightarrow> \<lparr>success = False, diagram = None,
                     message = ''Failed to generate valid modified UML diagram'',
                     error = v_error validation\<rparr>)
      | Throws e \<Rightarrow> modifyExistingDiagramCatch e)"

subsection \<open>handleModifyDiagram of the AI assistant panel\<close>

record PanelState =
  panel_error :: "string option"
  isChatMode :: bool
  modificationPrompt :: string
  modificationMode :: bool
  isModifying :: bool

text \<open>\<^verbatim>\<open>a || b\<close> on strings: \<open>a\<close> when it is present and not empty, \<open>b\<close> otherwise.\<close>

definition orElse :: "string option \<Rightarrow> string \<Rightarrow> string" where
  "orElse a b = (case a of Some s \<Rightarrow> if s \<noteq> [] then s else b | None \<Rightarrow> b)"

text \<open>
  The panel's handler, on the panel's state and the page's. \<open>hasOnModifyDiagram\<close> says whether
  the optional callback \<^verbatim>\<open>onModifyDiagram\<close> was given (the editor page gives it). The panel
  reads \<^verbatim>\<open>existingClasses\<close> and \<^verbatim>\<open>existingAssociations\<close> from the page.
\<close>

definition panelHandleModifyDiagram ::
  "(string \<Rightarrow> string) \<Rightarrow> (string \<Rightarrow> string) \<Rightarrow> string \<Rightarrow> bool \<Rightarrow> AIOutcome \<Rightarrow>
   PanelState \<times> PageState \<Rightarrow> PanelState \<times> PageState" where
  "panelHandleModifyDiagram trim toLowerCase engineMessage hasOnModifyDiagram outcome pp =
     (let panel = fst pp; page = snd pp
      in if trim (modificationPrompt panel) = [] then pp
         else
           let response = modifyExistingDiagram toLowerCase engineMessage
                            (classes page) (associations page) outcome
           in case (if success response then diagram response else None) of
                Some d \<Rightarrow>
                  (panel\<lparr>panel_error := None, modificationPrompt := [],
                         modificationMode := False, isModifying := False\<rparr>,
                   if hasOnModifyDiagram
                   then handleModifyDiagram (d_classes d) (d_associations d) page
                   else handleGenerateAssociations (d_associations d)
                          (handleGenerateClasses (d_classes d) page))
              | None \<Rightarrow>
                  (panel\<lparr>panel_error :=
                           Some (orElse (error response)
                                  (orElse (Some (message response))
                                     ''Error desconocido al modificar el diagrama'')),
                         isModifying := False\<rparr>,
                   page))"

text \<open>
  What the panel renders of this state. The button \<^verbatim>\<open>Modify\<close>, whose \<^verbatim>\<open>onClick\<close> is the handler,
  is in the modification-mode branch of the generation tab, with
  \<^verbatim>\<open>disabled={!modificationPrompt.trim() || isModifying}\<close>. The error display
  \<^verbatim>\<open>{error && (<div ...><p ...>{error}</p></div>)}\<close> is in the other branch of
  \<^verbatim>\<open>{modificationMode ? (...) : (...)}\<close>, the creation mode, and nowhere else.
\<close>

definition modifyButtonEnabled :: "(string \<Rightarrow> string) \<Rightarrow> PanelState \<Rightarrow> bool" where
  "modifyButtonEnabled trim panel =
     (if \<not> isChatMode panel
      then (if modificationMode panel
            then \<not> (trim (modificationPrompt panel) = [] \<or> isModifying panel)
            else False)
      else False)"

definition renderedError :: "PanelState \<Rightarrow> string option" where
  "renderedError panel =
     (if \<not> isChatMode panel
      then (if modificationMode panel then None
            else (if truthy (panel_error panel) then panel_error panel else None))
      else None)"

section \<open>Invariants of the merge loops\<close>

text \<open>The ids a class-merge state accounts for: those already merged and those still indexed.\<close>

definition classMergeIds :: "ClassMergeState \<Rightarrow> string set" where
  "classMergeIds s = (case s of (byId, byName, merged) \<Rightarrow> cls_id ` set merged \<union> fst ` set byId)"

definition lowerNames :: "(string \<Rightarrow> string) \<Rightarrow> UMLClass list \<Rightarrow> string set" where
  "lowerNames toLowerCase cs = (\<lambda>c. toLowerCase (cls_name c)) ` set cs"

definition assocEnds :: "Association \<Rightarrow> string \<times> string" where
  "assocEnds a = (fromClassId a, toClassId a)"

text \<open>Both indexes hold only existing classes, each under its own id or lower-cased name.\<close>

definition fromExisting :: "(string \<Rightarrow> string) \<Rightarrow> UMLClass list \<Rightarrow> ClassMergeState \<Rightarrow> bool" where
  "fromExisting toLowerCase ec s \<longleftrightarrow>
     (\<forall>e \<in> set (fst s). snd e \<in> set ec \<and> fst e = cls_id (snd e))
   \<and> (\<forall>e \<in> set (fst (snd s)). snd e \<in> set ec \<and> fst e = toLowerCase (cls_name (snd e)))"

text \<open>Before the absorbed proposal is reached: the name index still maps the name to \<open>E\<close>.\<close>

definition nameEntryIntact :: "(string \<Rightarrow> string) \<Rightarrow> UMLClass \<Rightarrow> ClassMergeState \<Rightarrow> bool" where
  "nameEntryIntact toLowerCase E s \<longleftrightarrow>
     Map_get (fst (snd s)) (toLowerCase (cls_name E)) = Some E"

text \<open>After it: \<open>E\<close> has left both indexes, and \<open>M\<close> is the last class of the list that carries
  the id of \<open>E\<close>.\<close>

definition absorbedAs ::
  "(string \<Rightarrow> string) \<Rightarrow> UMLClass \<Rightarrow> UMLClass \<Rightarrow> ClassMergeState \<Rightarrow> bool" where
  "absorbedAs toLowerCase E M s \<longleftrightarrow>
     cls_id E \<notin> fst ` set (fst s)
   \<and> toLowerCase (cls_name E) \<notin> fst ` set (fst (snd s))
   \<and> filter (\<lambda>c. cls_id c = cls_id E) (snd (snd s)) \<noteq> []
   \<and> last (filter (\<lambda>c. cls_id c = cls_id E) (snd (snd s))) = M"

section \<open>Invariants of the drag protocol\<close>

text \<open>The state of the drag protocol: idle, or dragging with the reset due at a given time.\<close>

definition dragIdle :: "PageState \<Rightarrow> bool" where
  "dragIdle st \<longleftrightarrow> \<not> isDraggingRef st \<and> resetTimers st = []"

definition dragUntil :: "nat \<Rightarrow> PageState \<Rightarrow> bool" where
  "dragUntil d st \<longleftrightarrow>
     isDraggingRef st \<and> clock st < d
   \<and> (\<exists>h. resetTimers st = [\<lparr>tm_handle = h, tm_due = d, tm_action = ResetDragFlag\<rparr>]
          \<and> dragTimeoutRef st = Some h)"

text \<open>
  After a run of events with non-decreasing times from an idle page: the page is idle if no
  drag update happened or the last one is 200 ms or more in the past, and dragging until the
  last one plus 200 ms otherwise. The clock is at the time of the last event.
\<close>

definition dragProtocol :: "nat \<Rightarrow> (nat \<times> PageEvent) list \<Rightarrow> PageState \<Rightarrow> bool" where
  "dragProtocol c0 evs st \<longleftrightarrow>
     clock st = last (c0 # map fst evs)
   \<and> (case lastDragTime evs of
         None \<Rightarrow> dragIdle st
       | Some t0 \<Rightarrow> if clock st < t0 + 200 then dragUntil (t0 + 200) st else dragIdle st)"

section \<open>Example entities\<close>

definition mkClass :: "string \<Rightarrow> string \<Rightarrow> UMLClass" where
  "mkClass i n = \<lparr>cls_id = i, cls_name = n, cls_attributes = [], cls_position = None\<rparr>"

definition mkAssoc :: "string \<Rightarrow> string \<Rightarrow> string \<Rightarrow> Association" where
  "mkAssoc i f t =
     \<lparr>assoc_id = i, fromClassId = f, toClassId = t, fromMultiplicity = ''1'',
      toMultiplicity = ''1'', relationshipType = RT_association, associationClass = None,
      inheritanceType = None, cascadeDelete = None\<rparr>"

definition editor_AB :: EditorState where
  "editor_AB =
     \<lparr>classes = [mkClass ''A'' ''A'', mkClass ''B'' ''B''],
      associations = [mkAssoc ''a1'' ''A'' ''B''], selectedClass = Some ''A''\<rparr>"

definition editor_ABC :: EditorState where
  "editor_ABC =
     \<lparr>classes = [mkClass ''A'' ''A'', mkClass ''B'' ''B'', mkClass ''C'' ''C''],
      associations = [mkAssoc ''a1'' ''A'' ''B'', mkAssoc ''a2'' ''B'' ''C'', mkAssoc ''a3'' ''C'' ''A''],
      selectedClass = None\<rparr>"

text \<open>An existing diagram with a positioned class \<^verbatim>\<open>User\<close>, and a proposal that renames it
  under a fresh id, without a position.\<close>

definition userClass :: UMLClass where
  "userClass = \<lparr>cls_id = ''c1'', cls_name = ''User'', cls_attributes = [],
                cls_position = Some \<lparr>pos_x = 100, pos_y = 100\<rparr>\<rparr>"

definition proposedUser :: UMLClass where
  "proposedUser = \<lparr>cls_id = ''c2'', cls_name = ''USER'',
     cls_attributes = [\<lparr>attr_id = ''at1'', attr_name = ''email'', attr_type = DT_String\<rparr>],
     cls_position = None\<rparr>"

text \<open>A page showing one class, a drag of that class, and two serializers that write the ids.\<close>

definition pageWithA :: PageState where
  "pageWithA = initialPage\<lparr>classes := [mkClass ''A'' ''A'']\<rparr>"

definition dragPatch :: ClassPatch where
  "dragPatch = \<lparr>patch_id = None, patch_name = None, patch_attributes = None,
                patch_position = Some \<lparr>pos_x = 40, pos_y = 60\<rparr>\<rparr>"

definition stringifyIds :: "UMLClass list \<Rightarrow> string" where
  "stringifyIds cs = concat (map (\<lambda>c. cls_id c @ '','') cs)"

definition stringifyAssocIds :: "Association list \<Rightarrow> string" where
  "stringifyAssocIds as = concat (map (\<lambda>a. assoc_id a @ '','') as)"

text \<open>An update message carrying one class \<^verbatim>\<open>B\<close>, from a given user id, and a parser that
  returns a given message.\<close>

definition updateFrom :: "string option \<Rightarrow> DiagramUpdate" where
  "updateFrom uid =
     \<lparr>upd_type = ''update'', upd_diagram_id = ''d1'',
      upd_diagram_data = Some \<lparr>dd_classes = Some [mkClass ''B'' ''B''], dd_associations = None\<rparr>,
      upd_timestamp = ''2025-01-01T00:00:00Z'', upd_user_id = uid\<rparr>"

definition parseAs :: "DiagramUpdate \<Rightarrow> string \<Rightarrow> DiagramUpdate option" where
  "parseAs d event_data = Some d"

text \<open>A validation result as the validator returns it for a response whose associations are
  not an array, a valid response without associations, and a panel in modification mode.\<close>

definition failedValidation :: ValidationResult where
  "failedValidation =
     \<lparr>isValid = False, v_diagram = None, v_error = Some ''associations must be an array''\<rparr>"

definition validWithoutAssociations :: ValidationResult where
  "validWithoutAssociations =
     \<lparr>isValid = True,
      v_diagram = Some \<lparr>json_classes = [userClass], json_associations = None\<rparr>,
      v_error = None\<rparr>"

definition panelWithPrompt :: PanelState where
  "panelWithPrompt =
     \<lparr>panel_error = None, isChatMode = False, modificationPrompt = ''add an Order class'',
      modificationMode = True, isModifying = False\<rparr>"

section \<open>Properties of the deduplication\<close>

lemma findIndex_ge: "- 1 \<le> findIndex P xs"
  by (induction xs) (auto simp: Let_def)

lemma findIndex_neg_iff: "findIndex P xs < 0 \<longleftrightarrow> (\<forall>a \<in> set xs. \<not> P a)"
  by (induction xs) (auto simp: Let_def)

lemma findIndex_iff:
  "i < length xs \<Longrightarrow> int i = findIndex P xs \<longleftrightarrow> P (xs ! i) \<and> (\<forall>j<i. \<not> P (xs ! j))"
proof (induction xs arbitrary: i)
  case Nil
  then show ?case by simp
next
  case (Cons a as)
  show ?case
  proof (cases i)
    case 0
    then show ?thesis
      using findIndex_ge [of P as] by (auto simp: Let_def)
  next
    case (Suc k)
    with Cons.prems have k: "k < length as" by simp
    have "int k = findIndex P as \<longleftrightarrow> P (as ! k) \<and> (\<forall>j<k. \<not> P (as ! j))"
      by (rule Cons.IH [OF k])
    moreover have "(\<forall>j<Suc k. \<not> P ((a # as) ! j)) \<longleftrightarrow> \<not> P a \<and> (\<forall>j<k. \<not> P (as ! j))"
      by (auto simp: less_Suc_eq_0_disj)
    ultimately show ?thesis
      using Suc by (auto simp: Let_def)
  qed
qed

lemma enumerate0_conv: "enumerate 0 xs = map (\<lambda>i. (i, xs ! i)) [0..<length xs]"
  unfolding enumerate_eq_zip by (rule nth_equalityI) simp_all

lemma uniqueById_index:
  "uniqueById key xs =
     map (\<lambda>i. xs ! i) (filter (\<lambda>i. \<forall>j<i. key (xs ! j) \<noteq> key (xs ! i)) [0..<length xs])"
proof -
  have "filter (\<lambda>(index, el). int index = findIndex (\<lambda>c. key c = key el) xs) (enumerate 0 xs)
      = map (\<lambda>i. (i, xs ! i)) (filter (\<lambda>i. \<forall>j<i. key (xs ! j) \<noteq> key (xs ! i)) [0..<length xs])"
    unfolding enumerate0_conv filter_map
    by (rule arg_cong [where f = "map _"], rule filter_cong) (auto simp: findIndex_iff)
  then show ?thesis
    by (simp add: uniqueById_def filter_indexed_def comp_def)
qed

text \<open>Appending an element: earlier indices and their tests do not move.\<close>

lemma uniqueById_snoc:
  "uniqueById key (xs @ [a]) =
     (if key a \<in> key ` set xs then uniqueById key xs else uniqueById key xs @ [a])"
proof -
  have 1: "filter (\<lambda>i. \<forall>j<i. key ((xs @ [a]) ! j) \<noteq> key ((xs @ [a]) ! i)) [0..<length xs]
         = filter (\<lambda>i. \<forall>j<i. key (xs ! j) \<noteq> key (xs ! i)) [0..<length xs]"
    by (rule filter_cong) (auto simp: nth_append)
  have 2: "(\<forall>j<length xs. key ((xs @ [a]) ! j) \<noteq> key a) \<longleftrightarrow> key a \<notin> key ` set xs"
    by (auto simp: nth_append in_set_conv_nth image_iff) (metis nth_mem)
  have 3: "map (\<lambda>i. (xs @ [a]) ! i) (filter Q [0..<length xs])
         = map (\<lambda>i. xs ! i) (filter Q [0..<length xs])" for Q
    by (rule map_cong) (auto simp: nth_append)
  show ?thesis
    unfolding uniqueById_index using 1 2 3 by simp
qed

lemma uniqueById_Nil: "uniqueById key [] = []"
  by (simp add: uniqueById_index)

lemma set_uniqueById: "key ` set (uniqueById key xs) = key ` set xs"
  by (induction xs rule: rev_induct) (auto simp: uniqueById_snoc uniqueById_Nil)

lemma uniqueById_subset: "set (uniqueById key xs) \<subseteq> set xs"
  by (induction xs rule: rev_induct) (auto simp: uniqueById_snoc uniqueById_Nil)

lemma distinct_uniqueById: "distinct (map key (uniqueById key xs))"
  by (induction xs rule: rev_induct) (auto simp: uniqueById_snoc uniqueById_Nil set_uniqueById)

lemma subseq_uniqueById: "subseq (uniqueById key xs) xs"
  by (induction xs rule: rev_induct) (auto simp: uniqueById_snoc uniqueById_Nil)

lemma uniqueById_distinct: "distinct (map key xs) \<Longrightarrow> uniqueById key xs = xs"
  by (induction xs rule: rev_induct) (auto simp: uniqueById_snoc uniqueById_Nil)

lemma filterSeen_snoc:
  "fst (filterSeen key seen (xs @ [a])) =
     (if key a \<in> seen \<union> key ` set xs then fst (filterSeen key seen xs)
      else fst (filterSeen key seen xs) @ [a])"
  by (induction xs arbitrary: seen) (auto simp: split_beta Let_def)

lemma memoizedById_eq: "memoizedById key xs = uniqueById key xs"
  by (induction xs rule: rev_induct)
     (auto simp: memoizedById_def filterSeen_snoc uniqueById_snoc uniqueById_Nil)

text \<open>
  Claim C4. The deduplication filter keeps exactly the elements at the positions where an id
  occurs for the first time, in their original order (first conjunct; hence the result is a
  subsequence of the input), every id of the input occurs exactly once in the result, an
  input without repeated ids is returned as it is, and the canvas's \<^verbatim>\<open>seen\<close>-set filter
  computes the same list as the page's \<^verbatim>\<open>findIndex\<close> filter.
\<close>

theorem dedup_first_occurrence_contract:
  "uniqueById key xs =
     map (\<lambda>i. xs ! i) (filter (\<lambda>i. \<forall>j<i. key (xs ! j) \<noteq> key (xs ! i)) [0..<length xs])
   \<and> subseq (uniqueById key xs) xs
   \<and> distinct (map key (uniqueById key xs))
   \<and> key ` set (uniqueById key xs) = key ` set xs
   \<and> (distinct (map key xs) \<longrightarrow> uniqueById key xs = xs)
   \<and> memoizedById key xs = uniqueById key xs"
  using uniqueById_index [of key xs] subseq_uniqueById [of key xs]
    distinct_uniqueById [of key xs] set_uniqueById [of key xs]
    uniqueById_distinct [of key xs] memoizedById_eq [of key xs]
  by blast

theorem dedup_first_occurrence_contract_witness:
  "distinct (map cls_id [mkClass ''A'' ''A'', mkClass ''B'' ''B''])
   \<and> uniqueById cls_id [mkClass ''A'' ''A'', mkClass ''B'' ''B'']
       = [mkClass ''A'' ''A'', mkClass ''B'' ''B'']
   \<and> memoizedById cls_id [mkClass ''A'' ''A'', mkClass ''B'' ''B'']
       = [mkClass ''A'' ''A'', mkClass ''B'' ''B'']
   \<and> distinct (map cls_id (uniqueById cls_id
        [mkClass ''A'' ''first'', mkClass ''B'' ''B'', mkClass ''A'' ''second'']))"
proof -
  have d: "distinct (map cls_id [mkClass ''A'' ''A'', mkClass ''B'' ''B''])"
    by (simp add: mkClass_def)
  have u: "uniqueById cls_id [mkClass ''A'' ''A'', mkClass ''B'' ''B'']
             = [mkClass ''A'' ''A'', mkClass ''B'' ''B'']"
    using d dedup_first_occurrence_contract [of cls_id "[mkClass ''A'' ''A'', mkClass ''B'' ''B'']"]
    by blast
  have m: "memoizedById cls_id [mkClass ''A'' ''A'', mkClass ''B'' ''B'']
             = uniqueById cls_id [mkClass ''A'' ''A'', mkClass ''B'' ''B'']"
    using dedup_first_occurrence_contract [of cls_id "[mkClass ''A'' ''A'', mkClass ''B'' ''B'']"]
    by blast
  have r: "distinct (map cls_id (uniqueById cls_id
        [mkClass ''A'' ''first'', mkClass ''B'' ''B'', mkClass ''A'' ''second'']))"
    using dedup_first_occurrence_contract
        [of cls_id "[mkClass ''A'' ''first'', mkClass ''B'' ''B'', mkClass ''A'' ''second'']"]
    by blast
  from d u m r show ?thesis by simp
qed

lemma dedup_repeated_example:
  "uniqueById cls_id [mkClass ''A'' ''first'', mkClass ''B'' ''B'', mkClass ''A'' ''second'']
     = [mkClass ''A'' ''first'', mkClass ''B'' ''B'']
   \<and> filterSeen cls_id {} [mkClass ''A'' ''first'', mkClass ''B'' ''B'', mkClass ''A'' ''second'']
     = ([mkClass ''A'' ''first'', mkClass ''B'' ''B''], [''A''])"
  by (simp add: uniqueById_def filter_indexed_def enumerate_eq_zip upt_rec mkClass_def)

section \<open>Removing a class\<close>

text \<open>
  Claim C8. Removing a class keeps exactly the classes with another id and exactly the
  associations neither of whose endpoints is the removed id, both in their order: the class
  is gone, no remaining association refers to it, and every other class and association is
  still there.
\<close>

theorem removeClass_cascade:
  "classes (removeClass ident st) = filter (\<lambda>cls. cls_id cls \<noteq> ident) (classes st)
   \<and> associations (removeClass ident st)
       = filter (\<lambda>a. fromClassId a \<noteq> ident \<and> toClassId a \<noteq> ident) (associations st)
   \<and> ident \<notin> cls_id ` set (classes (removeClass ident st))
   \<and> (\<forall>a \<in> set (associations (removeClass ident st)).
         fromClassId a \<noteq> ident \<and> toClassId a \<noteq> ident)
   \<and> (\<forall>c \<in> set (classes st). cls_id c \<noteq> ident \<longrightarrow> c \<in> set (classes (removeClass ident st)))
   \<and> (\<forall>a \<in> set (associations st). fromClassId a \<noteq> ident \<and> toClassId a \<noteq> ident
         \<longrightarrow> a \<in> set (associations (removeClass ident st)))"
  by (auto simp: removeClass_def)

theorem removeClass_cascade_witness:
  "associations (removeClass ''A'' editor_AB) = []
   \<and> classes (removeClass ''A'' editor_AB) = [mkClass ''B'' ''B'']
   \<and> associations (removeClass ''A'' editor_ABC) = [mkAssoc ''a2'' ''B'' ''C'']
   \<and> classes (removeClass ''A'' editor_ABC) = [mkClass ''B'' ''B'', mkClass ''C'' ''C'']
   \<and> mkAssoc ''a2'' ''B'' ''C'' \<in> set (associations editor_ABC)
   \<and> mkClass ''B'' ''B'' \<in> set (classes editor_ABC)"
  using removeClass_cascade [of "''A''" editor_AB] removeClass_cascade [of "''A''" editor_ABC]
  by (simp add: editor_AB_def editor_ABC_def mkClass_def mkAssoc_def)

section \<open>Facts about the Map model\<close>

lemma Map_get_map_of: "Map_get m k = map_of m k"
  by (induction m) auto

lemma Map_get_Some_mem: "Map_get m k = Some v \<Longrightarrow> (k, v) \<in> set m"
  by (induction m) (auto split: if_splits)

lemma Map_get_None_iff: "Map_get m k = None \<longleftrightarrow> k \<notin> fst ` set m"
  by (induction m) auto

lemma keys_Map_set: "fst ` set (Map_set k v m) = insert k (fst ` set m)"
  by (induction m) auto

lemma set_Map_set_subset: "set (Map_set k v m) \<subseteq> insert (k, v) (set m)"
  by (induction m) auto

lemma Map_set_fresh: "k \<notin> fst ` set m \<Longrightarrow> Map_set k v m = m @ [(k, v)]"
  by (induction m) auto

lemma keys_Map_delete: "fst ` set (Map_delete k m) = fst ` set m - {k}"
  by (auto simp: Map_delete_def)

lemma set_Map_delete_subset: "set (Map_delete k m) \<subseteq> set m"
  by (auto simp: Map_delete_def)

lemma new_Map_snoc: "new_Map (es @ [e]) = Map_set (fst e) (snd e) (new_Map es)"
  by (simp add: new_Map_def)

lemma keys_new_Map: "fst ` set (new_Map es) = fst ` set es"
  by (induction es rule: rev_induct) (auto simp: new_Map_snoc keys_Map_set, simp add: new_Map_def)

lemma set_new_Map_subset: "set (new_Map es) \<subseteq> set es"
proof (induction es rule: rev_induct)
  case Nil
  then show ?case by (simp add: new_Map_def)
next
  case (snoc e es)
  then show ?case
    using set_Map_set_subset [of "fst e" "snd e" "new_Map es"] by (auto simp: new_Map_snoc)
qed

lemma new_Map_distinct: "distinct (map fst es) \<Longrightarrow> new_Map es = es"
proof (induction es rule: rev_induct)
  case Nil
  then show ?case by (simp add: new_Map_def)
next
  case (snoc e es)
  then have "new_Map es = es" and "fst e \<notin> fst ` set es" by auto
  then show ?case by (simp add: new_Map_snoc Map_set_fresh)
qed

section \<open>The final deduplication pass of the merge\<close>

lemma Map_set_keyed:
  "distinct (map key us) \<Longrightarrow>
   Map_set k v (map (\<lambda>el. (key el, f el)) us) =
     (if k \<in> key ` set us then map (\<lambda>el. (key el, if key el = k then v else f el)) us
      else map (\<lambda>el. (key el, f el)) us @ [(k, v)])"
  by (induction us) (auto simp: image_iff)

lemma dedup_fold_char:
  "foldl (\<lambda>m el. Map_set (key el) el m) [] xs =
     map (\<lambda>el. (key el, last (filter (\<lambda>e. key e = key el) xs))) (uniqueById key xs)"
proof (induction xs rule: rev_induct)
  case Nil
  then show ?case by (simp add: uniqueById_Nil)
next
  case (snoc a xs)
  let ?f = "\<lambda>el. last (filter (\<lambda>e. key e = key el) xs)"
  have step: "foldl (\<lambda>m el. Map_set (key el) el m) [] (xs @ [a]) =
      Map_set (key a) a (map (\<lambda>el. (key el, ?f el)) (uniqueById key xs))"
    using snoc.IH by simp
  show ?case
  proof (cases "key a \<in> key ` set xs")
    case True
    then have "key a \<in> key ` set (uniqueById key xs)" by (simp add: set_uniqueById)
    then show ?thesis
      unfolding step
      by (simp add: Map_set_keyed [OF distinct_uniqueById] uniqueById_snoc True)
  next
    case False
    then have n: "key a \<notin> key ` set (uniqueById key xs)" by (simp add: set_uniqueById)
    have "\<And>el. el \<in> set (uniqueById key xs) \<Longrightarrow> key a \<noteq> key el"
      using n by auto
    then show ?thesis
      unfolding step using n
      by (simp add: Map_set_keyed [OF distinct_uniqueById] uniqueById_snoc False)
  qed
qed

lemma dedupViaMap_char:
  "dedupViaMap key xs = map (\<lambda>el. last (filter (\<lambda>e. key e = key el) xs)) (uniqueById key xs)"
  by (simp add: dedupViaMap_def Map_values_def dedup_fold_char comp_def)

lemma last_filter_mem: "el \<in> set xs \<Longrightarrow> last (filter (\<lambda>e. key e = key el) xs) \<in> set xs \<and> key (last (filter (\<lambda>e. key e = key el) xs)) = key el"
proof -
  assume "el \<in> set xs"
  then have ne: "filter (\<lambda>e. key e = key el) xs \<noteq> []"
    by (auto simp: filter_empty_conv)
  from last_in_set [OF ne] show ?thesis by auto
qed

lemma set_dedupViaMap_subset: "set (dedupViaMap key xs) \<subseteq> set xs"
  using last_filter_mem [of _ xs key] uniqueById_subset [of key xs]
  by (auto simp: dedupViaMap_char)

lemma keys_dedupViaMap: "map key (dedupViaMap key xs) = map key (uniqueById key xs)"
  unfolding dedupViaMap_char map_map comp_def
  by (rule map_cong [OF refl]) (use last_filter_mem [of _ xs key] uniqueById_subset [of key xs] in auto)

lemma dedupViaMap_distinct: "distinct (map key xs) \<Longrightarrow> dedupViaMap key xs = xs"
proof -
  assume d: "distinct (map key xs)"
  have "filter (\<lambda>e. key e = key el) xs = [el]" if "el \<in> set xs" for el
    using d that
  proof (induction xs)
    case Nil
    then show ?case by simp
  next
    case (Cons a xs)
    then show ?case by (auto simp: filter_empty_conv image_iff)
  qed
  then have "map (\<lambda>el. last (filter (\<lambda>e. key e = key el) xs)) xs = xs"
    by (simp add: map_idI)
  then show ?thesis
    by (simp add: dedupViaMap_char uniqueById_distinct [OF d])
qed

text \<open>
  Claim C10. The final pass of the merge, for classes and for associations, returns one
  element per id, in the order in which the ids first occur in the list it is given, and
  the element returned for an id is the last element of that list with the id.
\<close>

theorem merge_final_pass_first_position_last_value:
  "mergedClasses (mergeDiagramModifications toLowerCase ec ea pc pa)
     = map (\<lambda>c. last (filter (\<lambda>d. cls_id d = cls_id c) (mergedClassesList toLowerCase ec pc)))
         (uniqueById cls_id (mergedClassesList toLowerCase ec pc))
   \<and> mergedAssociations (mergeDiagramModifications toLowerCase ec ea pc pa)
     = map (\<lambda>a. last (filter (\<lambda>b. assoc_id b = assoc_id a) (mergedAssociationsList ea pa)))
         (uniqueById assoc_id (mergedAssociationsList ea pa))"
  by (simp add: mergeDiagramModifications_def dedupViaMap_char)

text \<open>
  Two proposed classes with the same new id: the list before the final pass holds both, the
  page's filter would keep the first, the merge keeps the second at the first one's place.
\<close>

theorem merge_final_pass_first_position_last_value_witness:
  "mergedClassesList toLowerCaseASCII [mkClass ''c1'' ''User'']
       [mkClass ''n1'' ''first'', mkClass ''c1'' ''User'', mkClass ''n1'' ''second'']
     = [mkClass ''n1'' ''first'', mkClass ''c1'' ''User'', mkClass ''n1'' ''second'']
   \<and> uniqueById cls_id [mkClass ''n1'' ''first'', mkClass ''c1'' ''User'', mkClass ''n1'' ''second'']
     = [mkClass ''n1'' ''first'', mkClass ''c1'' ''User'']
   \<and> mergedClasses (mergeDiagramModifications toLowerCaseASCII [mkClass ''c1'' ''User''] []
       [mkClass ''n1'' ''first'', mkClass ''c1'' ''User'', mkClass ''n1'' ''second''] [])
     = [mkClass ''n1'' ''second'', mkClass ''c1'' ''User'']"
proof -
  let ?pc = "[mkClass ''n1'' ''first'', mkClass ''c1'' ''User'', mkClass ''n1'' ''second'']"
  have l: "mergedClassesList toLowerCaseASCII [mkClass ''c1'' ''User''] ?pc = ?pc"
    by code_simp
  have u: "uniqueById cls_id ?pc = [mkClass ''n1'' ''first'', mkClass ''c1'' ''User'']"
    by code_simp
  have m: "map (\<lambda>c. last (filter (\<lambda>d. cls_id d = cls_id c) ?pc))
             [mkClass ''n1'' ''first'', mkClass ''c1'' ''User'']
         = [mkClass ''n1'' ''second'', mkClass ''c1'' ''User'']"
    by (simp add: mkClass_def)
  from merge_final_pass_first_position_last_value
         [of toLowerCaseASCII "[mkClass ''c1'' ''User'']" "[]" ?pc "[]"]
  have "mergedClasses (mergeDiagramModifications toLowerCaseASCII [mkClass ''c1'' ''User''] [] ?pc [])
      = [mkClass ''n1'' ''second'', mkClass ''c1'' ''User'']"
    unfolding l u m by (rule conjunct1)
  with l u show ?thesis by simp
qed

section \<open>Merging a diagram with itself\<close>

lemma spreadClass_self: "spreadClass c c = c"
  by (cases "cls_position c") (simp_all add: spreadClass_def)

lemma spreadAssoc_self: "spreadAssoc a a = a"
  by (cases "associationClass a"; cases "inheritanceType a"; cases "cascadeDelete a")
     (simp_all add: spreadAssoc_def)

lemma Map_delete_head_distinct:
  "k \<notin> fst ` set m \<Longrightarrow> Map_delete k ((k, v) # m) = m"
  by (auto simp: Map_delete_def filter_id_conv)

lemma class_loop_self:
  "distinct (map cls_id suf) \<Longrightarrow>
   \<exists>byName'. foldl (mergeClassStep toLowerCase) (map (\<lambda>cls. (cls_id cls, cls)) suf, byName, merged) suf
     = ([], byName', merged @ suf)"
proof (induction suf arbitrary: byName merged)
  case Nil
  then show ?case by simp
next
  case (Cons c suf)
  have fresh: "cls_id c \<notin> fst ` set (map (\<lambda>cls. (cls_id cls, cls)) suf)"
    using Cons.prems by (auto simp: image_iff)
  have step: "mergeClassStep toLowerCase ((cls_id c, c) # map (\<lambda>cls. (cls_id cls, cls)) suf, byName, merged) c
      = (map (\<lambda>cls. (cls_id cls, cls)) suf, Map_delete (toLowerCase (cls_name c)) byName, merged @ [c])"
    using Map_delete_head_distinct [OF fresh] by (simp add: spreadClass_self)
  from Cons.prems have "distinct (map cls_id suf)" by simp
  from Cons.IH [OF this, where byName = "Map_delete (toLowerCase (cls_name c)) byName"
      and merged = "merged @ [c]"]
  show ?case using step by simp
qed

lemma mergedClassesList_self:
  assumes "distinct (map cls_id cs)"
  shows "mergedClassesList toLowerCase cs cs = cs"
proof -
  have "distinct (map fst (map (\<lambda>cls. (cls_id cls, cls)) cs))"
    using assms by (simp add: comp_def)
  then have init: "initClassMerge toLowerCase cs = (map (\<lambda>cls. (cls_id cls, cls)) cs,
      new_Map (map (\<lambda>cls. (toLowerCase (cls_name cls), cls)) cs), [])"
    by (simp add: initClassMerge_def new_Map_distinct)
  from class_loop_self [OF assms, where toLowerCase = toLowerCase
      and byName = "new_Map (map (\<lambda>cls. (toLowerCase (cls_name cls), cls)) cs)" and merged = "[]"]
  obtain byName' where "foldl (mergeClassStep toLowerCase) (initClassMerge toLowerCase cs) cs = ([], byName', cs)"
    unfolding init by auto
  then show ?thesis by (simp add: mergedClassesList_def Map_values_def)
qed

lemma assoc_loop_self:
  "distinct (map assoc_id suf) \<Longrightarrow>
   foldl mergeAssocStep (map (\<lambda>a. (assoc_id a, a)) suf, merged) suf = ([], merged @ suf)"
proof (induction suf arbitrary: merged)
  case Nil
  then show ?case by simp
next
  case (Cons a suf)
  have fresh: "assoc_id a \<notin> fst ` set (map (\<lambda>a. (assoc_id a, a)) suf)"
    using Cons.prems by (auto simp: image_iff)
  have step: "mergeAssocStep ((assoc_id a, a) # map (\<lambda>a. (assoc_id a, a)) suf, merged) a
      = (map (\<lambda>a. (assoc_id a, a)) suf, merged @ [a])"
    using Map_delete_head_distinct [OF fresh] by (simp add: spreadAssoc_self)
  from Cons.prems have "distinct (map assoc_id suf)" by simp
  from Cons.IH [OF this, of "merged @ [a]"]
  show ?case using step by simp
qed

lemma mergedAssociationsList_self:
  assumes "distinct (map assoc_id as)"
  shows "mergedAssociationsList as as = as"
proof -
  have "distinct (map fst (map (\<lambda>a. (assoc_id a, a)) as))"
    using assms by (simp add: comp_def)
  then have init: "initAssocMerge as = (map (\<lambda>a. (assoc_id a, a)) as, [])"
    by (simp add: initAssocMerge_def new_Map_distinct)
  show ?thesis
    by (simp add: mergedAssociationsList_def init assoc_loop_self [OF assms] Map_values_def)
qed

text \<open>
  Claim C2 (as amended). For a diagram whose class ids are pairwise distinct and whose
  association ids are pairwise distinct, merging the diagram with itself returns the same
  classes and the same associations, in the same order.
\<close>

theorem merge_idempotent_distinct:
  assumes "distinct (map cls_id cs)" and "distinct (map assoc_id as)"
  shows "mergeDiagramModifications toLowerCase cs as cs as = \<lparr>mergedClasses = cs, mergedAssociations = as\<rparr>"
  using assms
  by (simp add: mergeDiagramModifications_def mergedClassesList_self mergedAssociationsList_self
      dedupViaMap_distinct)

theorem merge_idempotent_distinct_witness:
  "distinct (map cls_id (classes editor_ABC)) \<and> distinct (map assoc_id (associations editor_ABC))
   \<and> mergeDiagramModifications toLowerCaseASCII (classes editor_ABC) (associations editor_ABC)
         (classes editor_ABC) (associations editor_ABC)
       = \<lparr>mergedClasses = classes editor_ABC, mergedAssociations = associations editor_ABC\<rparr>"
proof -
  have c: "distinct (map cls_id (classes editor_ABC))"
    by (simp add: editor_ABC_def mkClass_def)
  have a: "distinct (map assoc_id (associations editor_ABC))"
    by (simp add: editor_ABC_def mkAssoc_def)
  from c a merge_idempotent_distinct [where toLowerCase = toLowerCaseASCII, OF c a]
  show ?thesis by simp
qed

text \<open>
  With a repeated class id the self-merge is not the identity: the second class with id
  \<^verbatim>\<open>c1\<close> replaces the first one in the final pass.
\<close>

theorem merge_idempotent_counterexample:
  "mergedClasses (mergeDiagramModifications toLowerCaseASCII [mkClass ''c1'' ''User'', mkClass ''c1'' ''Other''] []
      [mkClass ''c1'' ''User'', mkClass ''c1'' ''Other''] []) = [mkClass ''c1'' ''Other'']
   \<and> mergedClasses (mergeDiagramModifications toLowerCaseASCII [mkClass ''c1'' ''User'', mkClass ''c1'' ''Other''] []
      [mkClass ''c1'' ''User'', mkClass ''c1'' ''Other''] [])
       \<noteq> [mkClass ''c1'' ''User'', mkClass ''c1'' ''Other'']"
  by code_simp

section \<open>Class ids and association endpoints of the merge result\<close>

lemma classMergeIds_simp [simp]:
  "classMergeIds (byId, byName, merged) = cls_id ` set merged \<union> fst ` set byId"
  by (simp add: classMergeIds_def)

lemma mergeClassStep_ids_mono: "classMergeIds s \<subseteq> classMergeIds (mergeClassStep toLowerCase s p)"
proof -
  obtain byId byName merged where s: "s = (byId, byName, merged)" by (cases s) auto
  show ?thesis
    unfolding s
    by (auto simp: keys_Map_delete spreadClass_def split: option.splits)
qed

lemma mergeClassStep_shrinks:
  "set (fst (mergeClassStep toLowerCase s p)) \<subseteq> set (fst s)
   \<and> set (fst (snd (mergeClassStep toLowerCase s p))) \<subseteq> set (fst (snd s))"
proof -
  obtain byId byName merged where s: "s = (byId, byName, merged)" by (cases s) auto
  show ?thesis
    unfolding s using set_Map_delete_subset [of _ byId] set_Map_delete_subset [of _ byName]
    by (auto split: option.splits)
qed

lemma mergeClassStep_own_id:
  assumes "cls_id p \<in> classMergeIds s \<or> toLowerCase (cls_name p) \<notin> fst ` set (fst (snd s))"
  shows "cls_id p \<in> classMergeIds (mergeClassStep toLowerCase s p)"
proof -
  obtain byId byName merged where s: "s = (byId, byName, merged)" by (cases s) auto
  show ?thesis
  proof (cases "cls_id p \<in> classMergeIds s")
    case True
    then show ?thesis using mergeClassStep_ids_mono [of s toLowerCase p] by blast
  next
    case False
    with assms have n: "Map_get byName (toLowerCase (cls_name p)) = None"
      by (simp add: s Map_get_None_iff)
    from False have "Map_get byId (cls_id p) = None"
      by (auto simp: s Map_get_None_iff)
    with n show ?thesis by (simp add: s)
  qed
qed

lemma class_loop_invariant:
  assumes "foldl (mergeClassStep toLowerCase) s ps = s'"
  shows "classMergeIds s \<subseteq> classMergeIds s'
       \<and> set (fst s') \<subseteq> set (fst s) \<and> set (fst (snd s')) \<subseteq> set (fst (snd s))
       \<and> (\<forall>p \<in> set ps. cls_id p \<in> classMergeIds s \<or> toLowerCase (cls_name p) \<notin> fst ` set (fst (snd s))
            \<longrightarrow> cls_id p \<in> classMergeIds s')"
  using assms
proof (induction ps arbitrary: s' rule: rev_induct)
  case Nil
  then show ?case by simp
next
  case (snoc p ps)
  define t where "t = foldl (mergeClassStep toLowerCase) s ps"
  have IH: "classMergeIds s \<subseteq> classMergeIds t
       \<and> set (fst t) \<subseteq> set (fst s) \<and> set (fst (snd t)) \<subseteq> set (fst (snd s))
       \<and> (\<forall>p \<in> set ps. cls_id p \<in> classMergeIds s \<or> toLowerCase (cls_name p) \<notin> fst ` set (fst (snd s))
            \<longrightarrow> cls_id p \<in> classMergeIds t)"
    using snoc.IH [of t] by (simp add: t_def)
  have s': "s' = mergeClassStep toLowerCase t p" using snoc.prems by (simp add: t_def)
  have mono: "classMergeIds t \<subseteq> classMergeIds s'"
    unfolding s' by (rule mergeClassStep_ids_mono)
  have shr: "set (fst s') \<subseteq> set (fst t) \<and> set (fst (snd s')) \<subseteq> set (fst (snd t))"
    unfolding s' by (rule mergeClassStep_shrinks)
  have own: "cls_id p \<in> classMergeIds s \<or> toLowerCase (cls_name p) \<notin> fst ` set (fst (snd s))
      \<Longrightarrow> cls_id p \<in> classMergeIds s'"
  proof -
    assume "cls_id p \<in> classMergeIds s \<or> toLowerCase (cls_name p) \<notin> fst ` set (fst (snd s))"
    then have "cls_id p \<in> classMergeIds t \<or> toLowerCase (cls_name p) \<notin> fst ` set (fst (snd t))"
      using IH by blast
    then show ?thesis unfolding s' by (rule mergeClassStep_own_id)
  qed
  show ?case using IH mono shr own by auto
qed

lemma keyed_new_Map:
  "(k, v) \<in> set (new_Map (map (\<lambda>el. (key el, el)) xs)) \<Longrightarrow> k = key v \<and> v \<in> set xs"
  using set_new_Map_subset [of "map (\<lambda>el. (key el, el)) xs"] by auto

lemma mergedClassesList_ids:
  "cls_id ` set ec \<subseteq> cls_id ` set (mergedClassesList toLowerCase ec pc)
   \<and> (\<forall>p \<in> set pc. cls_id p \<in> cls_id ` set ec \<or> toLowerCase (cls_name p) \<notin> lowerNames toLowerCase ec
        \<longrightarrow> cls_id p \<in> cls_id ` set (mergedClassesList toLowerCase ec pc))"
proof -
  define s' where "s' = foldl (mergeClassStep toLowerCase) (initClassMerge toLowerCase ec) pc"
  obtain byId byName merged where s': "s' = (byId, byName, merged)" by (cases s') auto
  have ids0: "classMergeIds (initClassMerge toLowerCase ec) = cls_id ` set ec"
    by (simp add: initClassMerge_def keys_new_Map image_comp comp_def)
  have names0: "fst ` set (fst (snd (initClassMerge toLowerCase ec))) = lowerNames toLowerCase ec"
    by (simp add: initClassMerge_def keys_new_Map image_comp comp_def lowerNames_def)
  have inv: "classMergeIds (initClassMerge toLowerCase ec) \<subseteq> classMergeIds s'
       \<and> set (fst s') \<subseteq> set (fst (initClassMerge toLowerCase ec))
       \<and> (\<forall>p \<in> set pc. cls_id p \<in> classMergeIds (initClassMerge toLowerCase ec)
              \<or> toLowerCase (cls_name p) \<notin> fst ` set (fst (snd (initClassMerge toLowerCase ec)))
            \<longrightarrow> cls_id p \<in> classMergeIds s')"
    using class_loop_invariant [of toLowerCase "initClassMerge toLowerCase ec" pc s'] by (simp add: s'_def)
  have keyed: "\<And>k v. (k, v) \<in> set byId \<Longrightarrow> k = cls_id v"
    using inv keyed_new_Map [of _ _ cls_id ec] by (auto simp: s' initClassMerge_def)
  then have "cls_id ` snd ` set byId = fst ` set byId"
    by (force simp: image_iff)
  then have res: "cls_id ` set (mergedClassesList toLowerCase ec pc) = classMergeIds s'"
    using s' by (simp add: mergedClassesList_def s'_def [symmetric] Map_values_def image_Un)
  show ?thesis using inv unfolding res ids0 names0 by blast
qed

lemma assocEnds_spread: "assocEnds (spreadAssoc e a) = assocEnds a"
  by (simp add: assocEnds_def spreadAssoc_def)

lemma mergeAssocStep_inv:
  "set (fst (mergeAssocStep s a)) \<subseteq> set (fst s)
   \<and> assocEnds ` set (snd (mergeAssocStep s a)) \<subseteq> insert (assocEnds a) (assocEnds ` set (snd s))"
proof -
  obtain byId merged where s: "s = (byId, merged)" by (cases s) auto
  show ?thesis
    unfolding s using set_Map_delete_subset [of _ byId]
    by (auto simp: assocEnds_spread split: option.splits)
qed

lemma assoc_loop_invariant:
  "set (fst (foldl mergeAssocStep s as)) \<subseteq> set (fst s)
   \<and> assocEnds ` set (snd (foldl mergeAssocStep s as))
       \<subseteq> assocEnds ` set as \<union> assocEnds ` set (snd s)"
proof (induction as rule: rev_induct)
  case Nil
  then show ?case by simp
next
  case (snoc a as)
  define t where "t = foldl mergeAssocStep s as"
  have 1: "set (fst t) \<subseteq> set (fst s)"
    and 2: "assocEnds ` set (snd t) \<subseteq> assocEnds ` set as \<union> assocEnds ` set (snd s)"
    using snoc.IH by (simp_all add: t_def)
  have 3: "set (fst (mergeAssocStep t a)) \<subseteq> set (fst t)"
    and 4: "assocEnds ` set (snd (mergeAssocStep t a)) \<subseteq> insert (assocEnds a) (assocEnds ` set (snd t))"
    using mergeAssocStep_inv [of t a] by blast+
  have 5: "foldl mergeAssocStep s (as @ [a]) = mergeAssocStep t a"
    by (simp add: t_def)
  have 6: "assocEnds ` set (as @ [a]) = insert (assocEnds a) (assocEnds ` set as)"
    by simp
  have A: "set (fst (mergeAssocStep t a)) \<subseteq> set (fst s)"
    using 3 1 by (rule order_trans)
  have "insert (assocEnds a) (assocEnds ` set (snd t))
      \<subseteq> insert (assocEnds a) (assocEnds ` set as \<union> assocEnds ` set (snd s))"
    using 2 by (rule insert_mono)
  then have B: "assocEnds ` set (snd (mergeAssocStep t a))
      \<subseteq> insert (assocEnds a) (assocEnds ` set as) \<union> assocEnds ` set (snd s)"
    unfolding Un_insert_left by (rule order_trans [OF 4])
  show ?case unfolding 5 6 using A B by (rule conjI)
qed

lemma mergedAssociationsList_ends:
  "assocEnds ` set (mergedAssociationsList ea pa) \<subseteq> assocEnds ` set pa \<union> assocEnds ` set ea"
proof -
  define s' where "s' = foldl mergeAssocStep (initAssocMerge ea) pa"
  have inv: "set (fst s') \<subseteq> set (fst (initAssocMerge ea))
      \<and> assocEnds ` set (snd s') \<subseteq> assocEnds ` set pa \<union> assocEnds ` set (snd (initAssocMerge ea))"
    unfolding s'_def by (rule assoc_loop_invariant)
  have "snd ` set (fst s') \<subseteq> set ea"
    using inv keyed_new_Map [of _ _ assoc_id ea] by (auto simp: initAssocMerge_def)
  then have "assocEnds ` set (Map_values (fst s')) \<subseteq> assocEnds ` set ea"
    by (auto simp: Map_values_def)
  moreover have "assocEnds ` set (snd s') \<subseteq> assocEnds ` set pa"
    using inv by (simp add: initAssocMerge_def)
  moreover have "mergedAssociationsList ea pa = snd s' @ Map_values (fst s')"
    by (simp add: mergedAssociationsList_def s'_def [symmetric] split: prod.splits)
  ultimately show ?thesis by auto
qed

lemma set_map_eq_image: "map f xs = map f ys \<Longrightarrow> f ` set xs = f ` set ys"
  by (metis set_map)

lemma ids_dedupViaMap: "key ` set (dedupViaMap key xs) = key ` set xs"
  using set_map_eq_image [OF keys_dedupViaMap [of key xs]] by (simp add: set_uniqueById)

text \<open>
  Claim C3 (as amended). Let the existing and the proposed diagram each satisfy endpoint
  integrity, and let every proposed class that is an endpoint of a proposed association either
  carry the id of an existing class or have a lower-cased name that no existing class has (so
  that it cannot be absorbed by the name fallback under another id). Then every association
  of the merge result has both endpoints among the ids of the result's classes. This holds
  for every lower-casing function.
\<close>

theorem merge_endpoint_integrity:
  assumes ex: "endpointIntegrity ec ea"
    and ai: "endpointIntegrity pc pa"
    and nofallback: "\<forall>p \<in> set pc. (\<exists>a \<in> set pa. cls_id p = fromClassId a \<or> cls_id p = toClassId a)
        \<longrightarrow> cls_id p \<in> cls_id ` set ec \<or> toLowerCase (cls_name p) \<notin> lowerNames toLowerCase ec"
  shows "endpointIntegrity (mergedClasses (mergeDiagramModifications toLowerCase ec ea pc pa))
           (mergedAssociations (mergeDiagramModifications toLowerCase ec ea pc pa))"
proof -
  let ?R = "mergeDiagramModifications toLowerCase ec ea pc pa"
  have ids: "cls_id ` set (mergedClasses ?R) = cls_id ` set (mergedClassesList toLowerCase ec pc)"
    by (simp add: mergeDiagramModifications_def ids_dedupViaMap)
  have cover: "cls_id ` set ec \<subseteq> cls_id ` set (mergedClasses ?R)"
    and own: "\<And>p. p \<in> set pc \<Longrightarrow>
        cls_id p \<in> cls_id ` set ec \<or> toLowerCase (cls_name p) \<notin> lowerNames toLowerCase ec
        \<Longrightarrow> cls_id p \<in> cls_id ` set (mergedClasses ?R)"
    using mergedClassesList_ids [of ec toLowerCase pc] unfolding ids by blast+
  have pend: "e \<in> cls_id ` set (mergedClasses ?R)"
    if a: "a \<in> set pa" and e: "e = fromClassId a \<or> e = toClassId a" for a e
  proof -
    from ai a e obtain p where p: "p \<in> set pc" "cls_id p = e"
      unfolding endpointIntegrity_def by (metis (no_types, lifting) image_iff)
    with nofallback a e have "cls_id p \<in> cls_id ` set ec \<or> toLowerCase (cls_name p) \<notin> lowerNames toLowerCase ec"
      by blast
    from own [OF p(1) this] p(2) show ?thesis by simp
  qed
  have eend: "e \<in> cls_id ` set (mergedClasses ?R)"
    if a: "a \<in> set ea" and e: "e = fromClassId a \<or> e = toClassId a" for a e
    using ex a e cover unfolding endpointIntegrity_def by blast
  show ?thesis
    unfolding endpointIntegrity_def
  proof
    fix a assume "a \<in> set (mergedAssociations ?R)"
    then have "a \<in> set (mergedAssociationsList ea pa)"
      using set_dedupViaMap_subset [of assoc_id "mergedAssociationsList ea pa"]
      by (auto simp: mergeDiagramModifications_def)
    then have "assocEnds a \<in> assocEnds ` set pa \<union> assocEnds ` set ea"
      using mergedAssociationsList_ends [of ea pa] by blast
    then obtain b where b: "b \<in> set pa \<or> b \<in> set ea" "assocEnds b = assocEnds a"
      by (metis (no_types) Un_iff image_iff)
    then have "fromClassId a = fromClassId b" "toClassId a = toClassId b"
      by (simp_all add: assocEnds_def)
    with b(1) pend [of b] eend [of b]
    show "fromClassId a \<in> cls_id ` set (mergedClasses ?R) \<and> toClassId a \<in> cls_id ` set (mergedClasses ?R)"
      by metis
  qed
qed

theorem merge_endpoint_integrity_witness:
  "endpointIntegrity (classes editor_ABC) (associations editor_ABC)
   \<and> endpointIntegrity [mkClass ''A'' ''Account'', mkClass ''c2'' ''b'', mkClass ''D'' ''Document'']
        [mkAssoc ''a1'' ''A'' ''D'', mkAssoc ''a9'' ''D'' ''A'']
   \<and> endpointIntegrity
        (mergedClasses (mergeDiagramModifications toLowerCaseASCII (classes editor_ABC) (associations editor_ABC)
           [mkClass ''A'' ''Account'', mkClass ''c2'' ''b'', mkClass ''D'' ''Document'']
           [mkAssoc ''a1'' ''A'' ''D'', mkAssoc ''a9'' ''D'' ''A'']))
        (mergedAssociations (mergeDiagramModifications toLowerCaseASCII (classes editor_ABC) (associations editor_ABC)
           [mkClass ''A'' ''Account'', mkClass ''c2'' ''b'', mkClass ''D'' ''Document'']
           [mkAssoc ''a1'' ''A'' ''D'', mkAssoc ''a9'' ''D'' ''A'']))
   \<and> mergedAssociations (mergeDiagramModifications toLowerCaseASCII (classes editor_ABC) (associations editor_ABC)
           [mkClass ''A'' ''Account'', mkClass ''c2'' ''b'', mkClass ''D'' ''Document'']
           [mkAssoc ''a1'' ''A'' ''D'', mkAssoc ''a9'' ''D'' ''A''])
       = [mkAssoc ''a1'' ''A'' ''D'', mkAssoc ''a9'' ''D'' ''A'', mkAssoc ''a2'' ''B'' ''C'',
          mkAssoc ''a3'' ''C'' ''A'']"
proof -
  let ?pc = "[mkClass ''A'' ''Account'', mkClass ''c2'' ''b'', mkClass ''D'' ''Document'']"
  let ?pa = "[mkAssoc ''a1'' ''A'' ''D'', mkAssoc ''a9'' ''D'' ''A'']"
  have h1: "endpointIntegrity (classes editor_ABC) (associations editor_ABC)"
    by code_simp
  have h2: "endpointIntegrity ?pc ?pa"
    by code_simp
  have h3: "\<forall>p \<in> set ?pc. (\<exists>a \<in> set ?pa. cls_id p = fromClassId a \<or> cls_id p = toClassId a)
        \<longrightarrow> cls_id p \<in> cls_id ` set (classes editor_ABC)
            \<or> toLowerCaseASCII (cls_name p) \<notin> lowerNames toLowerCaseASCII (classes editor_ABC)"
    by code_simp
  have r: "mergedAssociations (mergeDiagramModifications toLowerCaseASCII (classes editor_ABC)
             (associations editor_ABC) ?pc ?pa)
       = [mkAssoc ''a1'' ''A'' ''D'', mkAssoc ''a9'' ''D'' ''A'', mkAssoc ''a2'' ''B'' ''C'',
          mkAssoc ''a3'' ''C'' ''A'']"
    by code_simp
  from h1 h2 r merge_endpoint_integrity [where toLowerCase = toLowerCaseASCII, OF h1 h2 h3]
  show ?thesis by simp
qed

text \<open>
  Without the extra condition the property fails: the proposed class \<^verbatim>\<open>c2\<close> is absorbed
  by name into the existing class \<^verbatim>\<open>c1\<close>, its id disappears, and the proposed association
  \<^verbatim>\<open>c2 -> c3\<close> is kept as it is.
\<close>

theorem merge_endpoint_integrity_counterexample:
  "endpointIntegrity [mkClass ''c1'' ''User''] []
   \<and> endpointIntegrity [mkClass ''c2'' ''User'', mkClass ''c3'' ''Order''] [mkAssoc ''a1'' ''c2'' ''c3'']
   \<and> \<not> endpointIntegrity
       (mergedClasses (mergeDiagramModifications toLowerCaseASCII [mkClass ''c1'' ''User''] []
          [mkClass ''c2'' ''User'', mkClass ''c3'' ''Order''] [mkAssoc ''a1'' ''c2'' ''c3'']))
       (mergedAssociations (mergeDiagramModifications toLowerCaseASCII [mkClass ''c1'' ''User''] []
          [mkClass ''c2'' ''User'', mkClass ''c3'' ''Order''] [mkAssoc ''a1'' ''c2'' ''c3'']))"
  by code_simp

section \<open>The name fallback of the class merge\<close>

lemma fromExisting_init: "fromExisting toLowerCase ec (initClassMerge toLowerCase ec)"
  using keyed_new_Map [of _ _ cls_id ec] keyed_new_Map [of _ _ "\<lambda>c. toLowerCase (cls_name c)" ec]
  by (auto simp: fromExisting_def initClassMerge_def)

lemma fromExisting_step: "fromExisting toLowerCase ec s \<Longrightarrow> fromExisting toLowerCase ec (mergeClassStep toLowerCase s p)"
  using mergeClassStep_shrinks [of toLowerCase s p] unfolding fromExisting_def by blast

lemma fromExisting_fold: "fromExisting toLowerCase ec s \<Longrightarrow> fromExisting toLowerCase ec (foldl (mergeClassStep toLowerCase) s ps)"
  by (induction ps arbitrary: s) (simp_all add: fromExisting_step)

lemma Map_get_delete: "Map_get (Map_delete k m) k' = (if k' = k then None else Map_get m k')"
  by (induction m) (auto simp: Map_delete_def)

lemma Map_get_new_Map_Some:
  "k \<in> key ` set xs \<Longrightarrow> \<exists>v. Map_get (new_Map (map (\<lambda>el. (key el, el)) xs)) k = Some v"
proof -
  assume "k \<in> key ` set xs"
  then have "k \<in> fst ` set (new_Map (map (\<lambda>el. (key el, el)) xs))"
    by (simp add: keys_new_Map image_comp comp_def)
  then have "Map_get (new_Map (map (\<lambda>el. (key el, el)) xs)) k \<noteq> None"
    by (simp add: Map_get_None_iff)
  then show ?thesis by auto
qed

lemma filter_key_empty_iff: "filter (\<lambda>c. key c = k) xs = [] \<longleftrightarrow> k \<notin> key ` set xs"
  by (induction xs) auto

lemma step_other_before:
  assumes fe: "fromExisting toLowerCase ec s"
    and uniq: "\<forall>X \<in> set ec. toLowerCase (cls_name X) = toLowerCase (cls_name E) \<longrightarrow> X = E"
    and idQ: "cls_id Q \<noteq> cls_id E"
    and nmQ: "toLowerCase (cls_name Q) \<noteq> toLowerCase (cls_name E)"
    and inv: "nameEntryIntact toLowerCase E s"
  shows "nameEntryIntact toLowerCase E (mergeClassStep toLowerCase s Q)"
proof -
  obtain byId byName merged where s: "s = (byId, byName, merged)" by (cases s) auto
  show ?thesis
  proof (cases "Map_get byId (cls_id Q)")
    case (Some X)
    then have "(cls_id Q, X) \<in> set byId" by (rule Map_get_Some_mem)
    with fe have X: "X \<in> set ec" "cls_id Q = cls_id X" by (auto simp: fromExisting_def s)
    with idQ have "X \<noteq> E" by auto
    with uniq X have "toLowerCase (cls_name X) \<noteq> toLowerCase (cls_name E)" by auto
    then show ?thesis using Some inv by (simp add: s nameEntryIntact_def Map_get_delete)
  next
    case None
    show ?thesis
    proof (cases "Map_get byName (toLowerCase (cls_name Q))")
      case N2: None
      then show ?thesis using None inv by (simp add: s nameEntryIntact_def)
    next
      case (Some X)
      then have "(toLowerCase (cls_name Q), X) \<in> set byName" by (rule Map_get_Some_mem)
      with fe have "toLowerCase (cls_name Q) = toLowerCase (cls_name X)"
        by (auto simp: fromExisting_def s)
      with nmQ have "toLowerCase (cls_name X) \<noteq> toLowerCase (cls_name E)" by simp
      then show ?thesis using None Some inv by (simp add: s nameEntryIntact_def Map_get_delete)
    qed
  qed
qed

lemma fold_others_before:
  assumes uniq: "\<forall>X \<in> set ec. toLowerCase (cls_name X) = toLowerCase (cls_name E) \<longrightarrow> X = E"
    and others: "\<forall>Q \<in> set qs. cls_id Q \<noteq> cls_id E
        \<and> toLowerCase (cls_name Q) \<noteq> toLowerCase (cls_name E)"
    and fe: "fromExisting toLowerCase ec s"
    and inv: "nameEntryIntact toLowerCase E s"
  shows "nameEntryIntact toLowerCase E (foldl (mergeClassStep toLowerCase) s qs)"
  using others fe inv
proof (induction qs arbitrary: s)
  case Nil
  then show ?case by simp
next
  case (Cons Q qs)
  have q: "cls_id Q \<noteq> cls_id E" "toLowerCase (cls_name Q) \<noteq> toLowerCase (cls_name E)"
    using Cons.prems(1) by simp_all
  have 1: "fromExisting toLowerCase ec (mergeClassStep toLowerCase s Q)"
    using Cons.prems(2) by (rule fromExisting_step)
  have 2: "nameEntryIntact toLowerCase E (mergeClassStep toLowerCase s Q)"
    using Cons.prems(2) uniq q Cons.prems(3) by (rule step_other_before)
  have 3: "\<forall>Q \<in> set qs. cls_id Q \<noteq> cls_id E
        \<and> toLowerCase (cls_name Q) \<noteq> toLowerCase (cls_name E)"
    using Cons.prems(1) by simp
  show ?case using Cons.IH [OF 3 1 2] by simp
qed

text \<open>Once \<open>E\<close> has left both indexes, a proposal with another id adds no class with the id of
  \<open>E\<close>, unless it is absorbed by name into another existing class that has this id.\<close>

lemma step_other_after:
  assumes fe: "fromExisting toLowerCase ec s"
    and idQ: "cls_id Q \<noteq> cls_id E"
    and nmQ: "\<forall>X \<in> set ec. cls_id X = cls_id E \<and> X \<noteq> E
        \<longrightarrow> toLowerCase (cls_name Q) \<noteq> toLowerCase (cls_name X)"
    and inv: "absorbedAs toLowerCase E M s"
  shows "absorbedAs toLowerCase E M (mergeClassStep toLowerCase s Q)"
proof -
  obtain byId byName merged where s: "s = (byId, byName, merged)" by (cases s) auto
  have shr: "set (fst (mergeClassStep toLowerCase s Q)) \<subseteq> set (fst s)"
      "set (fst (snd (mergeClassStep toLowerCase s Q))) \<subseteq> set (fst (snd s))"
    using mergeClassStep_shrinks [of toLowerCase s Q] by blast+
  have k1: "cls_id E \<notin> fst ` set (fst (mergeClassStep toLowerCase s Q))"
    using shr(1) inv by (auto simp: absorbedAs_def)
  have k2: "toLowerCase (cls_name E) \<notin> fst ` set (fst (snd (mergeClassStep toLowerCase s Q)))"
    using shr(2) inv by (auto simp: absorbedAs_def)
  have keep: "filter (\<lambda>c. cls_id c = cls_id E) (snd (snd (mergeClassStep toLowerCase s Q)))
       = filter (\<lambda>c. cls_id c = cls_id E) (snd (snd s))"
  proof (cases "Map_get byId (cls_id Q)")
    case (Some X)
    then show ?thesis using idQ by (simp add: s spreadClass_def)
  next
    case None
    show ?thesis
    proof (cases "Map_get byName (toLowerCase (cls_name Q))")
      case N2: None
      then show ?thesis using None idQ by (simp add: s)
    next
      case (Some X)
      then have mem: "(toLowerCase (cls_name Q), X) \<in> set byName" by (rule Map_get_Some_mem)
      with fe have X: "X \<in> set ec" "toLowerCase (cls_name Q) = toLowerCase (cls_name X)"
        by (auto simp: fromExisting_def s)
      have "toLowerCase (cls_name Q) \<in> fst ` set byName"
        using mem by force
      moreover have "toLowerCase (cls_name E) \<notin> fst ` set byName"
        using inv by (simp add: absorbedAs_def s)
      ultimately have "X \<noteq> E" using X(2) by auto
      with nmQ X have "cls_id X \<noteq> cls_id E" by auto
      then show ?thesis using None Some by (simp add: s)
    qed
  qed
  from k1 k2 keep inv show ?thesis by (simp add: absorbedAs_def)
qed

lemma fold_others_after:
  assumes others: "\<forall>Q \<in> set qs. cls_id Q \<noteq> cls_id E
        \<and> (\<forall>X \<in> set ec. cls_id X = cls_id E \<and> X \<noteq> E
              \<longrightarrow> toLowerCase (cls_name Q) \<noteq> toLowerCase (cls_name X))"
    and fe: "fromExisting toLowerCase ec s"
    and inv: "absorbedAs toLowerCase E M s"
  shows "absorbedAs toLowerCase E M (foldl (mergeClassStep toLowerCase) s qs)"
  using others fe inv
proof (induction qs arbitrary: s)
  case Nil
  then show ?case by simp
next
  case (Cons Q qs)
  have q: "cls_id Q \<noteq> cls_id E"
      "\<forall>X \<in> set ec. cls_id X = cls_id E \<and> X \<noteq> E
        \<longrightarrow> toLowerCase (cls_name Q) \<noteq> toLowerCase (cls_name X)"
    using Cons.prems(1) by simp_all
  have 1: "fromExisting toLowerCase ec (mergeClassStep toLowerCase s Q)"
    using Cons.prems(2) by (rule fromExisting_step)
  have 2: "absorbedAs toLowerCase E M (mergeClassStep toLowerCase s Q)"
    using Cons.prems(2) q Cons.prems(3) by (rule step_other_after)
  have 3: "\<forall>Q \<in> set qs. cls_id Q \<noteq> cls_id E
        \<and> (\<forall>X \<in> set ec. cls_id X = cls_id E \<and> X \<noteq> E
              \<longrightarrow> toLowerCase (cls_name Q) \<noteq> toLowerCase (cls_name X))"
    using Cons.prems(1) by simp
  show ?case using Cons.IH [OF 3 1 2] by simp
qed

lemma step_absorb:
  assumes fe: "fromExisting toLowerCase ec s"
    and idP: "cls_id P \<notin> cls_id ` set ec"
    and nmP: "toLowerCase (cls_name P) = toLowerCase (cls_name E)"
    and inv: "nameEntryIntact toLowerCase E s"
  shows "absorbedAs toLowerCase E ((spreadClass E P)\<lparr>cls_id := cls_id E\<rparr>)
           (mergeClassStep toLowerCase s P)"
proof -
  obtain byId byName merged where s: "s = (byId, byName, merged)" by (cases s) auto
  have "cls_id P \<notin> fst ` set byId"
    using fe idP by (force simp: fromExisting_def s)
  then have 1: "Map_get byId (cls_id P) = None" by (simp add: Map_get_None_iff)
  have 2: "Map_get byName (toLowerCase (cls_name P)) = Some E"
    using inv nmP by (simp add: nameEntryIntact_def s)
  show ?thesis
    using 1 2 by (simp add: s absorbedAs_def keys_Map_delete)
qed

lemma filter_key_distinct:
  "distinct (map key ys) \<Longrightarrow> y \<in> set ys \<Longrightarrow> filter (\<lambda>c. key c = key y) ys = [y]"
proof (induction ys)
  case Nil
  then show ?case by simp
next
  case (Cons a ys)
  then show ?case by (auto simp: filter_key_empty_iff)
qed

lemma filter_key_dedupViaMap:
  assumes "k \<in> key ` set xs"
  shows "filter (\<lambda>c. key c = k) (dedupViaMap key xs) = [last (filter (\<lambda>c. key c = k) xs)]"
proof -
  let ?ys = "dedupViaMap key xs"
  from assms obtain el where el: "el \<in> set (uniqueById key xs)" "key el = k"
    using set_uniqueById [of key xs] by (metis (no_types, lifting) image_iff)
  let ?y = "last (filter (\<lambda>c. key c = k) xs)"
  have "el \<in> set xs" using el(1) uniqueById_subset [of key xs] by blast
  from last_filter_mem [OF this, of key] have ky: "key ?y = k" by (simp add: el(2))
  have "(\<lambda>el. last (filter (\<lambda>e. key e = key el) xs)) el \<in> set ?ys"
    unfolding dedupViaMap_char set_map using el(1) by (rule imageI)
  then have mem: "?y \<in> set ?ys" by (simp add: el(2))
  have d: "distinct (map key ?ys)"
    by (simp add: keys_dedupViaMap distinct_uniqueById)
  from filter_key_distinct [OF d mem] show ?thesis by (simp add: ky)
qed

text \<open>
  Claim C1 (as amended). Let \<open>E\<close> be the only existing class with its lower-cased name, and let
  the proposed class \<open>P\<close> have that lower-cased name and an id that no existing class has. Let
  no proposed class before \<open>P\<close> have the id or the lower-cased name of \<open>E\<close>, and let no
  proposed class after \<open>P\<close> have the id of \<open>E\<close> or the lower-cased name of another existing
  class that has the id of \<open>E\<close> (there is none when the existing ids are distinct). Then the
  merge result contains exactly one class with the id of \<open>E\<close>: it has the name and the
  attributes of \<open>P\<close>, the id of \<open>E\<close>, and the position of \<open>P\<close>, or that of \<open>E\<close> when \<open>P\<close> has
  none. This holds for every lower-casing function.
\<close>

theorem merge_name_fallback_identity:
  assumes E: "E \<in> set ec"
    and uniq: "\<forall>X \<in> set ec. toLowerCase (cls_name X) = toLowerCase (cls_name E) \<longrightarrow> X = E"
    and idP: "cls_id P \<notin> cls_id ` set ec"
    and nmP: "toLowerCase (cls_name P) = toLowerCase (cls_name E)"
    and ob: "\<forall>Q \<in> set before. cls_id Q \<noteq> cls_id E
        \<and> toLowerCase (cls_name Q) \<noteq> toLowerCase (cls_name E)"
    and oa: "\<forall>Q \<in> set after. cls_id Q \<noteq> cls_id E
        \<and> (\<forall>X \<in> set ec. cls_id X = cls_id E \<and> X \<noteq> E
              \<longrightarrow> toLowerCase (cls_name Q) \<noteq> toLowerCase (cls_name X))"
  shows "filter (\<lambda>c. cls_id c = cls_id E)
           (mergedClasses (mergeDiagramModifications toLowerCase ec ea (before @ P # after) pa))
       = [\<lparr>cls_id = cls_id E, cls_name = cls_name P, cls_attributes = cls_attributes P,
           cls_position = (case cls_position P of Some p \<Rightarrow> Some p | None \<Rightarrow> cls_position E)\<rparr>]"
proof -
  let ?M = "(spreadClass E P)\<lparr>cls_id := cls_id E\<rparr>"
  let ?s0 = "initClassMerge toLowerCase ec"
  let ?s1 = "foldl (mergeClassStep toLowerCase) ?s0 before"
  let ?s2 = "mergeClassStep toLowerCase ?s1 P"
  let ?s3 = "foldl (mergeClassStep toLowerCase) ?s2 after"
  let ?list = "mergedClassesList toLowerCase ec (before @ P # after)"
  have fe0: "fromExisting toLowerCase ec ?s0" by (rule fromExisting_init)
  have inv0: "nameEntryIntact toLowerCase E ?s0"
  proof -
    have "toLowerCase (cls_name E) \<in> (\<lambda>c. toLowerCase (cls_name c)) ` set ec"
      using E by (rule imageI)
    from Map_get_new_Map_Some [OF this]
    obtain v where v: "Map_get (new_Map (map (\<lambda>c. (toLowerCase (cls_name c), c)) ec))
        (toLowerCase (cls_name E)) = Some v" by blast
    from keyed_new_Map [OF Map_get_Some_mem [OF v]] uniq have "v = E" by simp
    with v show ?thesis by (simp add: nameEntryIntact_def initClassMerge_def)
  qed
  have fe1: "fromExisting toLowerCase ec ?s1" using fe0 by (rule fromExisting_fold)
  have inv1: "nameEntryIntact toLowerCase E ?s1"
    using uniq ob fe0 inv0 by (rule fold_others_before)
  have fe2: "fromExisting toLowerCase ec ?s2" using fe1 by (rule fromExisting_step)
  have inv2: "absorbedAs toLowerCase E ?M ?s2"
    using fe1 idP nmP inv1 by (rule step_absorb)
  have fe3: "fromExisting toLowerCase ec ?s3" using fe2 by (rule fromExisting_fold)
  have inv3: "absorbedAs toLowerCase E ?M ?s3"
    using oa fe2 inv2 by (rule fold_others_after)
  have run: "foldl (mergeClassStep toLowerCase) ?s0 (before @ P # after) = ?s3" by simp
  obtain byId byName merged where s3: "?s3 = (byId, byName, merged)" by (cases ?s3) auto
  have list: "?list = merged @ Map_values byId"
    unfolding mergedClassesList_def run s3 by simp
  have keys: "cls_id E \<notin> fst ` set byId"
    and ne: "filter (\<lambda>c. cls_id c = cls_id E) merged \<noteq> []"
    and m: "last (filter (\<lambda>c. cls_id c = cls_id E) merged) = ?M"
    using inv3 unfolding s3 by (simp_all add: absorbedAs_def)
  have "cls_id ` set (Map_values byId) \<subseteq> fst ` set byId"
    using fe3 unfolding s3 by (force simp: fromExisting_def Map_values_def)
  with keys have "cls_id E \<notin> cls_id ` set (Map_values byId)" by blast
  then have "filter (\<lambda>c. cls_id c = cls_id E) (Map_values byId) = []"
    by (simp add: filter_key_empty_iff)
  then have f: "filter (\<lambda>c. cls_id c = cls_id E) ?list = filter (\<lambda>c. cls_id c = cls_id E) merged"
    by (simp add: list)
  with ne have "cls_id E \<in> cls_id ` set ?list"
    using filter_key_empty_iff [of cls_id "cls_id E" ?list] by simp
  from filter_key_dedupViaMap [OF this]
  have "filter (\<lambda>c. cls_id c = cls_id E)
           (mergedClasses (mergeDiagramModifications toLowerCase ec ea (before @ P # after) pa)) = [?M]"
    by (simp add: mergeDiagramModifications_def f m)
  then show ?thesis by (simp add: spreadClass_def)
qed

theorem merge_name_fallback_identity_witness:
  "userClass \<in> set [userClass, mkClass ''c5'' ''Order'']
   \<and> cls_id proposedUser \<notin> cls_id ` set [userClass, mkClass ''c5'' ''Order'']
   \<and> toLowerCaseASCII (cls_name proposedUser) = toLowerCaseASCII (cls_name userClass)
   \<and> filter (\<lambda>c. cls_id c = ''c1'')
        (mergedClasses (mergeDiagramModifications toLowerCaseASCII
           [userClass, mkClass ''c5'' ''Order''] []
           ([mkClass ''c7'' ''Invoice''] @ proposedUser
              # [mkClass ''c9'' ''user'', mkClass ''c5'' ''Orders'']) []))
       = [\<lparr>cls_id = ''c1'', cls_name = ''USER'',
           cls_attributes = [\<lparr>attr_id = ''at1'', attr_name = ''email'', attr_type = DT_String\<rparr>],
           cls_position = Some \<lparr>pos_x = 100, pos_y = 100\<rparr>\<rparr>]
   \<and> mergedClasses (mergeDiagramModifications toLowerCaseASCII [mkClass ''c1'' ''User''] []
        [mkClass ''c2'' ''User''] []) = [mkClass ''c1'' ''User'']"
proof -
  let ?ec = "[userClass, mkClass ''c5'' ''Order'']"
  let ?before = "[mkClass ''c7'' ''Invoice'']"
  let ?after = "[mkClass ''c9'' ''user'', mkClass ''c5'' ''Orders'']"
  have h1: "userClass \<in> set ?ec" by simp
  have h2: "\<forall>X \<in> set ?ec.
      toLowerCaseASCII (cls_name X) = toLowerCaseASCII (cls_name userClass) \<longrightarrow> X = userClass"
    by code_simp
  have h3: "cls_id proposedUser \<notin> cls_id ` set ?ec" by code_simp
  have h4: "toLowerCaseASCII (cls_name proposedUser) = toLowerCaseASCII (cls_name userClass)"
    by code_simp
  have h5: "\<forall>Q \<in> set ?before. cls_id Q \<noteq> cls_id userClass
        \<and> toLowerCaseASCII (cls_name Q) \<noteq> toLowerCaseASCII (cls_name userClass)"
    by code_simp
  have h6: "\<forall>Q \<in> set ?after. cls_id Q \<noteq> cls_id userClass
        \<and> (\<forall>X \<in> set ?ec. cls_id X = cls_id userClass \<and> X \<noteq> userClass
              \<longrightarrow> toLowerCaseASCII (cls_name Q) \<noteq> toLowerCaseASCII (cls_name X))"
    by code_simp
  have e: "mergedClasses (mergeDiagramModifications toLowerCaseASCII [mkClass ''c1'' ''User''] []
        [mkClass ''c2'' ''User''] []) = [mkClass ''c1'' ''User'']"
    by code_simp
  have v: "cls_id userClass = ''c1''" "cls_name proposedUser = ''USER''"
    "cls_attributes proposedUser = [\<lparr>attr_id = ''at1'', attr_name = ''email'', attr_type = DT_String\<rparr>]"
    "cls_position proposedUser = None" "cls_position userClass = Some \<lparr>pos_x = 100, pos_y = 100\<rparr>"
    by (simp_all add: userClass_def proposedUser_def)
  from merge_name_fallback_identity
         [where toLowerCase = toLowerCaseASCII and E = userClass and ec = ?ec and P = proposedUser
            and before = ?before and after = ?after and ea = "[]" and pa = "[]",
          OF h1 h2 h3 h4 h5 h6] h1 h3 h4 e
  show ?thesis by (simp add: v)
qed

text \<open>
  When two existing classes share the lower-cased name, the by-name index holds the later
  one: the proposal is merged into \<^verbatim>\<open>c3\<close>, and the class with id \<^verbatim>\<open>c1\<close> keeps its own name.
\<close>

theorem merge_name_fallback_identity_counterexample:
  "mkClass ''c1'' ''User'' \<in> set [mkClass ''c1'' ''User'', mkClass ''c3'' ''user'']
   \<and> cls_id (mkClass ''c2'' ''USER'') \<notin> cls_id ` set [mkClass ''c1'' ''User'', mkClass ''c3'' ''user'']
   \<and> toLowerCaseASCII (cls_name (mkClass ''c2'' ''USER'')) = toLowerCaseASCII (cls_name (mkClass ''c1'' ''User''))
   \<and> mergedClasses (mergeDiagramModifications toLowerCaseASCII [mkClass ''c1'' ''User'', mkClass ''c3'' ''user''] []
        [mkClass ''c2'' ''USER''] [])
       = [mkClass ''c3'' ''USER'', mkClass ''c1'' ''User'']"
  by code_simp

section \<open>Dragging and realtime snapshots\<close>

lemma handleRealtimeUpdate_dragging:
  "isDraggingRef st \<Longrightarrow> handleRealtimeUpdate f g nc na st = st"
  by (simp add: handleRealtimeUpdate_def)

lemma handleRealtimeUpdate_idle:
  "\<not> isDraggingRef st \<Longrightarrow>
   classes (handleRealtimeUpdate f g nc na st)
     = (if f (classes st) \<noteq> f (uniqueById cls_id nc) then uniqueById cls_id nc else classes st)
   \<and> associations (handleRealtimeUpdate f g nc na st)
     = (if g (associations st) \<noteq> g (uniqueById assoc_id na) then uniqueById assoc_id na
        else associations st)"
  by (simp add: handleRealtimeUpdate_def Let_def)

lemma set_enqueueTimer: "set (enqueueTimer tm us) = insert tm (set us)"
  by (induction us) auto

lemma filter_enqueueTimer_other: "\<not> P tm \<Longrightarrow> filter P (enqueueTimer tm us) = filter P us"
  by (induction us) auto

lemma filter_enqueueTimer_single:
  "P tm \<Longrightarrow> filter P us = [] \<Longrightarrow> filter P (enqueueTimer tm us) = [tm]"
  by (induction us) (auto split: if_splits)

lemma fireTimer_patch_flag:
  "tm_action tm \<noteq> ResetDragFlag \<Longrightarrow>
   isDraggingRef (fireTimer st tm) = isDraggingRef st
   \<and> dragTimeoutRef (fireTimer st tm) = dragTimeoutRef st
   \<and> timers (fireTimer st tm) = timers st"
  by (cases "tm_action tm") (simp_all add: fireTimer_def)

lemma fireTimer_reset:
  "tm_action tm = ResetDragFlag \<Longrightarrow>
   \<not> isDraggingRef (fireTimer st tm) \<and> dragTimeoutRef (fireTimer st tm) = None
   \<and> timers (fireTimer st tm) = timers st"
  by (simp add: fireTimer_def)

lemma fold_fire_timers: "timers (foldl fireTimer st tms) = timers st"
proof (induction tms arbitrary: st)
  case Nil
  then show ?case by simp
next
  case (Cons tm tms)
  have "timers (fireTimer st tm) = timers st"
    using fireTimer_patch_flag [of tm st] fireTimer_reset [of tm st] by blast
  then show ?case using Cons.IH [of "fireTimer st tm"] by simp
qed

lemma fold_fire_no_reset:
  "filter (\<lambda>tm. tm_action tm = ResetDragFlag) tms = [] \<Longrightarrow>
   isDraggingRef (foldl fireTimer st tms) = isDraggingRef st
   \<and> dragTimeoutRef (foldl fireTimer st tms) = dragTimeoutRef st"
proof (induction tms arbitrary: st)
  case Nil
  then show ?case by simp
next
  case (Cons tm tms)
  from Cons.prems have a: "tm_action tm \<noteq> ResetDragFlag"
    and r: "filter (\<lambda>tm. tm_action tm = ResetDragFlag) tms = []"
    by (auto split: if_splits)
  show ?case
    using Cons.IH [OF r, of "fireTimer st tm"] fireTimer_patch_flag [OF a, of st] by simp
qed

lemma fold_fire_some_reset:
  "filter (\<lambda>tm. tm_action tm = ResetDragFlag) tms \<noteq> [] \<Longrightarrow>
   \<not> isDraggingRef (foldl fireTimer st tms) \<and> dragTimeoutRef (foldl fireTimer st tms) = None"
proof (induction tms arbitrary: st rule: rev_induct)
  case Nil
  then show ?case by simp
next
  case (snoc tm tms)
  show ?case
  proof (cases "tm_action tm = ResetDragFlag")
    case True
    then show ?thesis using fireTimer_reset [OF True] by simp
  next
    case False
    with snoc.prems have "filter (\<lambda>tm. tm_action tm = ResetDragFlag) tms \<noteq> []" by simp
    from snoc.IH [OF this, of st] fireTimer_patch_flag [OF False, of "foldl fireTimer st tms"]
    show ?thesis by simp
  qed
qed

lemma resetTimers_cleared:
  assumes "resetTimerTracked st"
  shows "resetTimers (case dragTimeoutRef st of Some h \<Rightarrow> clearTimeout h st | None \<Rightarrow> st) = []"
proof (cases "resetTimers st")
  case Nil
  then show ?thesis
    by (cases "dragTimeoutRef st")
       (simp_all add: resetTimers_def clearTimeout_def filter_empty_conv)
next
  case (Cons tm tms)
  with assms have tms: "tms = []" and ref: "dragTimeoutRef st = Some (tm_handle tm)"
    by (simp_all add: resetTimerTracked_def split: list.splits)
  have "filter (\<lambda>u. tm_handle u \<noteq> tm_handle tm) (resetTimers st) = []"
    by (simp add: Cons tms)
  then show ?thesis
    by (simp add: ref resetTimers_def clearTimeout_def conj_commute)
qed

lemma updateClass_drag:
  assumes inv: "resetTimerTracked st" and pos: "patch_position updatedClass \<noteq> None"
  shows "isDraggingRef (updateClass ident updatedClass st)"
    and "\<exists>h. resetTimers (updateClass ident updatedClass st)
          = [\<lparr>tm_handle = h, tm_due = clock st + 200, tm_action = ResetDragFlag\<rparr>]
        \<and> dragTimeoutRef (updateClass ident updatedClass st) = Some h"
    and "clock (updateClass ident updatedClass st) = clock st"
proof -
  define st2 where "st2 = setTimeout (ApplyClassPatch ident updatedClass) 0 (st\<lparr>isDraggingRef := True\<rparr>)"
  define st3 where "st3 = (case dragTimeoutRef st2 of Some h \<Rightarrow> clearTimeout h st2 | None \<Rightarrow> st2)"
  have u: "updateClass ident updatedClass st
      = (setTimeout ResetDragFlag 200 st3)\<lparr>dragTimeoutRef := Some (nextHandle st3)\<rparr>"
    using pos unfolding updateClass_def Let_def st3_def st2_def by simp
  have r2: "resetTimers st2 = resetTimers st"
    by (simp add: st2_def setTimeout_def resetTimers_def filter_enqueueTimer_other)
  have d2: "dragTimeoutRef st2 = dragTimeoutRef st" by (simp add: st2_def setTimeout_def)
  have "resetTimerTracked st2"
    using inv by (simp add: resetTimerTracked_def r2 d2 split: list.splits)
  then have r3: "resetTimers st3 = []"
    unfolding st3_def by (rule resetTimers_cleared)
  have f3: "isDraggingRef st3" and c3: "clock st3 = clock st"
    by (simp_all add: st3_def st2_def setTimeout_def clearTimeout_def split: option.splits)
  show "isDraggingRef (updateClass ident updatedClass st)"
    using f3 by (simp add: u setTimeout_def)
  show "clock (updateClass ident updatedClass st) = clock st"
    using c3 by (simp add: u setTimeout_def)
  have "resetTimers (updateClass ident updatedClass st)
      = [\<lparr>tm_handle = nextHandle st3, tm_due = clock st + 200, tm_action = ResetDragFlag\<rparr>]"
    using r3 by (simp add: u setTimeout_def resetTimers_def filter_enqueueTimer_single c3)
  moreover have "dragTimeoutRef (updateClass ident updatedClass st) = Some (nextHandle st3)"
    by (simp add: u)
  ultimately show "\<exists>h. resetTimers (updateClass ident updatedClass st)
          = [\<lparr>tm_handle = h, tm_due = clock st + 200, tm_action = ResetDragFlag\<rparr>]
        \<and> dragTimeoutRef (updateClass ident updatedClass st) = Some h"
    by blast
qed

lemma advanceTo_flag:
  "isDraggingRef (advanceTo t st)
     = (if filter (\<lambda>tm. tm_due tm \<le> t) (resetTimers st) = [] then isDraggingRef st else False)"
proof -
  have "filter (\<lambda>tm. tm_action tm = ResetDragFlag) (filter (\<lambda>tm. tm_due tm \<le> t) (timers st))
      = filter (\<lambda>tm. tm_due tm \<le> t) (resetTimers st)"
    by (simp add: resetTimers_def conj_commute)
  then show ?thesis
    using fold_fire_no_reset [of "filter (\<lambda>tm. tm_due tm \<le> t) (timers st)"
            "st\<lparr>timers := filter (\<lambda>tm. \<not> tm_due tm \<le> t) (timers st)\<rparr>"]
          fold_fire_some_reset [of "filter (\<lambda>tm. tm_due tm \<le> t) (timers st)"
            "st\<lparr>timers := filter (\<lambda>tm. \<not> tm_due tm \<le> t) (timers st)\<rparr>"]
    by (auto simp: advanceTo_def)
qed

lemma advanceTo_resetTimers:
  "resetTimers (advanceTo t st) = filter (\<lambda>tm. \<not> tm_due tm \<le> t) (resetTimers st)"
  by (simp add: advanceTo_def resetTimers_def fold_fire_timers conj_commute)

lemma advanceTo_clock: "clock (advanceTo t st) = max t (clock st)"
  by (simp add: advanceTo_def)

lemma advanceTo_ref_kept:
  "filter (\<lambda>tm. tm_due tm \<le> t) (resetTimers st) = [] \<Longrightarrow>
   dragTimeoutRef (advanceTo t st) = dragTimeoutRef st"
proof -
  assume a: "filter (\<lambda>tm. tm_due tm \<le> t) (resetTimers st) = []"
  have "filter (\<lambda>tm. tm_action tm = ResetDragFlag) (filter (\<lambda>tm. tm_due tm \<le> t) (timers st))
      = filter (\<lambda>tm. tm_due tm \<le> t) (resetTimers st)"
    by (simp add: resetTimers_def conj_commute)
  with a have "filter (\<lambda>tm. tm_action tm = ResetDragFlag) (filter (\<lambda>tm. tm_due tm \<le> t) (timers st)) = []"
    by simp
  from fold_fire_no_reset [OF this] show ?thesis by (simp add: advanceTo_def)
qed

lemma dragIdle_tracked: "dragIdle st \<Longrightarrow> resetTimerTracked st"
  by (simp add: dragIdle_def resetTimerTracked_def)

lemma dragUntil_tracked: "dragUntil d st \<Longrightarrow> resetTimerTracked st"
  by (auto simp: dragUntil_def resetTimerTracked_def)

lemma advanceTo_idle: "dragIdle st \<Longrightarrow> dragIdle (advanceTo t st)"
  by (simp add: dragIdle_def advanceTo_flag advanceTo_resetTimers)

lemma advanceTo_dragging_before:
  assumes "dragUntil d st" and "t < d"
  shows "dragUntil d (advanceTo t st)"
proof -
  from assms(1) obtain h where
    r: "resetTimers st = [\<lparr>tm_handle = h, tm_due = d, tm_action = ResetDragFlag\<rparr>]"
    and ref: "dragTimeoutRef st = Some h" and f: "isDraggingRef st" and c: "clock st < d"
    by (auto simp: dragUntil_def)
  have nd: "filter (\<lambda>tm. tm_due tm \<le> t) (resetTimers st) = []"
    using assms(2) by (simp add: r)
  have "resetTimers (advanceTo t st) = resetTimers st"
    using assms(2) by (simp add: advanceTo_resetTimers r)
  moreover have "dragTimeoutRef (advanceTo t st) = Some h"
    using advanceTo_ref_kept [OF nd] ref by simp
  moreover have "isDraggingRef (advanceTo t st)"
    using f nd by (simp add: advanceTo_flag)
  moreover have "clock (advanceTo t st) < d"
    using c assms(2) by (simp add: advanceTo_clock)
  ultimately show ?thesis using r by (simp add: dragUntil_def)
qed

lemma advanceTo_dragging_after:
  assumes "dragUntil d st" and "d \<le> t"
  shows "dragIdle (advanceTo t st)"
proof -
  from assms(1) obtain h where
    r: "resetTimers st = [\<lparr>tm_handle = h, tm_due = d, tm_action = ResetDragFlag\<rparr>]"
    by (auto simp: dragUntil_def)
  show ?thesis
    using assms(2) by (simp add: dragIdle_def advanceTo_flag advanceTo_resetTimers r)
qed

lemma updateClass_starts_drag:
  assumes "resetTimerTracked st" and "patch_position updatedClass \<noteq> None"
  shows "dragUntil (clock st + 200) (updateClass ident updatedClass st)"
  using updateClass_drag [OF assms, of ident] by (simp add: dragUntil_def)

lemma updateClass_no_position:
  assumes "patch_position updatedClass = None"
  shows "isDraggingRef (updateClass ident updatedClass st) = isDraggingRef st"
    and "resetTimers (updateClass ident updatedClass st) = resetTimers st"
    and "dragTimeoutRef (updateClass ident updatedClass st) = dragTimeoutRef st"
    and "clock (updateClass ident updatedClass st) = clock st"
  using assms
  by (simp_all add: updateClass_def setTimeout_def resetTimers_def filter_enqueueTimer_other)

lemma removeClass_drag:
  "isDraggingRef (removeClass ident st) = isDraggingRef st
   \<and> resetTimers (removeClass ident st) = resetTimers st
   \<and> dragTimeoutRef (removeClass ident st) = dragTimeoutRef st
   \<and> clock (removeClass ident st) = clock st"
  by (simp add: removeClass_def resetTimers_def)

lemma simple_edits_drag:
  "isDraggingRef (addClass c st) = isDraggingRef st \<and> resetTimers (addClass c st) = resetTimers st
   \<and> dragTimeoutRef (addClass c st) = dragTimeoutRef st \<and> clock (addClass c st) = clock st"
  "isDraggingRef (addAssociation a st) = isDraggingRef st
   \<and> resetTimers (addAssociation a st) = resetTimers st
   \<and> dragTimeoutRef (addAssociation a st) = dragTimeoutRef st
   \<and> clock (addAssociation a st) = clock st"
  "isDraggingRef (updateAssociation a st) = isDraggingRef st
   \<and> resetTimers (updateAssociation a st) = resetTimers st
   \<and> dragTimeoutRef (updateAssociation a st) = dragTimeoutRef st
   \<and> clock (updateAssociation a st) = clock st"
  "isDraggingRef (removeAssociation ident st) = isDraggingRef st
   \<and> resetTimers (removeAssociation ident st) = resetTimers st
   \<and> dragTimeoutRef (removeAssociation ident st) = dragTimeoutRef st
   \<and> clock (removeAssociation ident st) = clock st"
  "isDraggingRef (handleGenerateClasses cs st) = isDraggingRef st
   \<and> resetTimers (handleGenerateClasses cs st) = resetTimers st
   \<and> dragTimeoutRef (handleGenerateClasses cs st) = dragTimeoutRef st
   \<and> clock (handleGenerateClasses cs st) = clock st"
  "isDraggingRef (handleGenerateAssociations as st) = isDraggingRef st
   \<and> resetTimers (handleGenerateAssociations as st) = resetTimers st
   \<and> dragTimeoutRef (handleGenerateAssociations as st) = dragTimeoutRef st
   \<and> clock (handleGenerateAssociations as st) = clock st"
  by (simp_all add: addClass_def addAssociation_def updateAssociation_def removeAssociation_def
      handleGenerateClasses_def handleGenerateAssociations_def resetTimers_def)

lemma handleModifyDiagram_drag:
  "isDraggingRef (handleModifyDiagram nc na st) = isDraggingRef st
   \<and> resetTimers (handleModifyDiagram nc na st) = resetTimers st
   \<and> dragTimeoutRef (handleModifyDiagram nc na st) = dragTimeoutRef st
   \<and> clock (handleModifyDiagram nc na st) = clock st"
  by (simp add: handleModifyDiagram_def resetTimers_def)

lemma handleRealtimeUpdate_drag:
  "isDraggingRef (handleRealtimeUpdate f g nc na st) = isDraggingRef st
   \<and> resetTimers (handleRealtimeUpdate f g nc na st) = resetTimers st
   \<and> dragTimeoutRef (handleRealtimeUpdate f g nc na st) = dragTimeoutRef st
   \<and> clock (handleRealtimeUpdate f g nc na st) = clock st"
  by (simp add: handleRealtimeUpdate_def resetTimers_def Let_def)

text \<open>An event that is not a drag update leaves the drag protocol where it is.\<close>

lemma other_event_keeps:
  assumes "\<not> isDragUpdate ev"
  shows "isDraggingRef (handleEvent f g ev s) = isDraggingRef s
       \<and> resetTimers (handleEvent f g ev s) = resetTimers s
       \<and> dragTimeoutRef (handleEvent f g ev s) = dragTimeoutRef s
       \<and> clock (handleEvent f g ev s) = clock s"
proof (cases ev)
  case (UpdateClassEv ident updatedClass)
  with assms(1) have "patch_position updatedClass = None" by simp
  from updateClass_no_position [OF this, of ident s] show ?thesis
    by (simp add: handleEvent_def UpdateClassEv)
next
  case (RemoveClassEv ident)
  then show ?thesis using removeClass_drag [of ident s] by (simp add: handleEvent_def)
next
  case (AddClassEv c)
  then show ?thesis using simple_edits_drag(1) [of c s] by (simp add: handleEvent_def)
next
  case (AddAssociationEv a)
  then show ?thesis using simple_edits_drag(2) [of a s] by (simp add: handleEvent_def)
next
  case (UpdateAssociationEv a)
  then show ?thesis using simple_edits_drag(3) [of a s] by (simp add: handleEvent_def)
next
  case (RemoveAssociationEv ident)
  then show ?thesis using simple_edits_drag(4) [of ident s] by (simp add: handleEvent_def)
next
  case (GenerateClassesEv cs)
  then show ?thesis using simple_edits_drag(5) [of cs s] by (simp add: handleEvent_def)
next
  case (GenerateAssociationsEv as)
  then show ?thesis using simple_edits_drag(6) [of as s] by (simp add: handleEvent_def)
next
  case (ModifyDiagramEv nc na)
  then show ?thesis using handleModifyDiagram_drag [of nc na s] by (simp add: handleEvent_def)
next
  case (RealtimeUpdateEv nc na)
  then show ?thesis using handleRealtimeUpdate_drag [of f g nc na s] by (simp add: handleEvent_def)
qed

lemma other_event_idle: "\<not> isDragUpdate ev \<Longrightarrow> dragIdle s \<Longrightarrow> dragIdle (handleEvent f g ev s)"
  using other_event_keeps [of ev f g s] by (simp add: dragIdle_def)

lemma other_event_dragging:
  "\<not> isDragUpdate ev \<Longrightarrow> dragUntil d s \<Longrightarrow> dragUntil d (handleEvent f g ev s)"
  using other_event_keeps [of ev f g s] by (simp add: dragUntil_def)

lemma drag_event_starts:
  assumes "isDragUpdate ev" and "resetTimerTracked s"
  shows "dragUntil (clock s + 200) (handleEvent f g ev s)"
proof (cases ev)
  case (UpdateClassEv ident updatedClass)
  with assms(1) have "patch_position updatedClass \<noteq> None" by simp
  from updateClass_starts_drag [OF assms(2) this, of ident] show ?thesis
    by (simp add: handleEvent_def UpdateClassEv)
qed (use assms(1) in simp_all)

lemma lastDragTime_snoc:
  "lastDragTime (evs @ [tev]) = (if isDragUpdate (snd tev) then Some (fst tev) else lastDragTime evs)"
  by (simp add: lastDragTime_def Let_def)

lemma pageRun_protocol:
  assumes idle: "dragIdle st0" and sorted: "sorted (clock st0 # map fst evs)"
  shows "dragProtocol (clock st0) evs (pageRun f g st0 evs)"
  using sorted
proof (induction evs rule: rev_induct)
  case Nil
  then show ?case using idle by (simp add: dragProtocol_def pageRun_def lastDragTime_def)
next
  case (snoc tev evs)
  define st where "st = pageRun f g st0 evs"
  define t where "t = fst tev"
  define s where "s = advanceTo t st"
  have "sorted ((clock st0 # map fst evs) @ [t])"
    using snoc.prems by (simp add: t_def)
  then have srt: "sorted (clock st0 # map fst evs)"
    and "\<forall>x \<in> set (clock st0 # map fst evs). x \<le> t"
    unfolding sorted_append by simp_all
  then have le: "last (clock st0 # map fst evs) \<le> t"
    using last_in_set [of "clock st0 # map fst evs"] by blast
  from snoc.IH [OF srt] have P: "dragProtocol (clock st0) evs st" by (simp add: st_def)
  then have cl: "clock st = last (clock st0 # map fst evs)" by (simp add: dragProtocol_def)
  with le have cs: "clock s = t" by (simp add: s_def advanceTo_clock)
  have run: "pageRun f g st0 (evs @ [tev]) = handleEvent f g (snd tev) s"
    by (simp add: pageRun_def pageStep_def st_def s_def t_def)
  have lastc: "last (clock st0 # map fst (evs @ [tev])) = t" by (simp add: t_def)
  consider (idle) "dragIdle s" | (drag) d where "dragUntil d s" "t < d" "lastDragTime evs = Some (d - 200)" "200 \<le> d"
  proof (cases "lastDragTime evs")
    case None
    with P have "dragIdle st" by (simp add: dragProtocol_def)
    then have "dragIdle s" unfolding s_def by (rule advanceTo_idle)
    then show ?thesis by (rule idle)
  next
    case (Some t0)
    show ?thesis
    proof (cases "clock st < t0 + 200")
      case False
      with P Some have "dragIdle st" by (simp add: dragProtocol_def)
      then have "dragIdle s" unfolding s_def by (rule advanceTo_idle)
      then show ?thesis by (rule idle)
    next
      case True
      with P Some have du: "dragUntil (t0 + 200) st" by (simp add: dragProtocol_def)
      show ?thesis
      proof (cases "t < t0 + 200")
        case True
        from advanceTo_dragging_before [OF du True] have "dragUntil (t0 + 200) s" by (simp add: s_def)
        then show ?thesis using True Some by (intro drag [of "t0 + 200"]) simp_all
      next
        case False
        then have "t0 + 200 \<le> t" by simp
        from advanceTo_dragging_after [OF du this] have "dragIdle s" by (simp add: s_def)
        then show ?thesis by (rule idle)
      qed
    qed
  qed
  then show ?case
  proof cases
    case idle
    show ?thesis
    proof (cases "isDragUpdate (snd tev)")
      case True
      from drag_event_starts [OF True dragIdle_tracked [OF idle], of f g]
      have du: "dragUntil (t + 200) (handleEvent f g (snd tev) s)" by (simp add: cs)
      have ck: "clock (handleEvent f g (snd tev) s) = t"
      proof (cases "snd tev")
        case (UpdateClassEv ident updatedClass)
        with True have "patch_position updatedClass \<noteq> None" by simp
        from updateClass_drag(3) [OF dragIdle_tracked [OF idle] this, of ident]
        show ?thesis by (simp add: handleEvent_def UpdateClassEv cs)
      qed (use True in simp_all)
      show ?thesis
        unfolding run dragProtocol_def lastc
        using du ck True by (simp add: lastDragTime_snoc t_def)
    next
      case False
      have ck: "clock (handleEvent f g (snd tev) s) = t"
        using other_event_keeps [OF False, of f g s] cs by simp
      have id': "dragIdle (handleEvent f g (snd tev) s)"
        using False idle by (rule other_event_idle)
      have "lastDragTime evs = None \<or> (\<exists>t0. lastDragTime evs = Some t0 \<and> \<not> t < t0 + 200)"
      proof (cases "lastDragTime evs")
        case None
        then show ?thesis by simp
      next
        case (Some t0)
        have "\<not> t < t0 + 200"
        proof
          assume lt: "t < t0 + 200"
          with le cl have "clock st < t0 + 200" by simp
          with P Some have "dragUntil (t0 + 200) st" by (simp add: dragProtocol_def)
          from advanceTo_dragging_before [OF this lt] have "isDraggingRef s"
            by (simp add: s_def dragUntil_def)
          with idle show False by (simp add: dragIdle_def)
        qed
        with Some show ?thesis by simp
      qed
      then show ?thesis
        unfolding run dragProtocol_def lastc
        using id' ck False by (auto simp: lastDragTime_snoc)
    qed
  next
    case (drag d)
    show ?thesis
    proof (cases "isDragUpdate (snd tev)")
      case True
      from drag_event_starts [OF True dragUntil_tracked [OF drag(1)], of f g]
      have du: "dragUntil (t + 200) (handleEvent f g (snd tev) s)" by (simp add: cs)
      have ck: "clock (handleEvent f g (snd tev) s) = t"
      proof (cases "snd tev")
        case (UpdateClassEv ident updatedClass)
        with True have "patch_position updatedClass \<noteq> None" by simp
        from updateClass_drag(3) [OF dragUntil_tracked [OF drag(1)] this, of ident]
        show ?thesis by (simp add: handleEvent_def UpdateClassEv cs)
      qed (use True in simp_all)
      show ?thesis
        unfolding run dragProtocol_def lastc
        using du ck True by (simp add: lastDragTime_snoc t_def)
    next
      case False
      have ck: "clock (handleEvent f g (snd tev) s) = t"
        using other_event_keeps [OF False, of f g s] cs by simp
      have du: "dragUntil d (handleEvent f g (snd tev) s)"
        using False drag(1) by (rule other_event_dragging)
      show ?thesis
        unfolding run dragProtocol_def lastc
        using du ck False drag by (simp add: lastDragTime_snoc)
    qed
  qed
qed

text \<open>
  Claim C7. Let the page start idle (flag clear, no reset timer pending), let events happen
  at non-decreasing times, and let a realtime snapshot arrive at a time \<open>t\<close> not before the
  last of them. When the snapshot is handled the drag flag is set exactly if there was a drag
  update (an \<^verbatim>\<open>updateClass\<close> with a position) and the last one is less than 200 ms in the
  past. If the flag is set, the snapshot leaves the page state as it is. If the flag is clear
  (no drag, or 200 ms or more since the last drag update), the snapshot is applied: the
  classes and the associations become the snapshot's, deduplicated by id, where the
  serialized texts differ, and stay the current ones where they are equal.
\<close>

theorem realtime_drag_suppression:
  assumes "\<not> isDraggingRef st0" and "resetTimers st0 = []"
    and "sorted (clock st0 # map fst evs @ [t])"
  shows "let s = advanceTo t (pageRun f g st0 evs);
             s' = handleRealtimeUpdate f g nc na s
         in (isDraggingRef s \<longleftrightarrow> (\<exists>t0. lastDragTime evs = Some t0 \<and> t < t0 + 200))
          \<and> (isDraggingRef s \<longrightarrow> s' = s)
          \<and> (\<not> isDraggingRef s \<longrightarrow>
                classes s' = (if f (classes s) \<noteq> f (uniqueById cls_id nc)
                              then uniqueById cls_id nc else classes s)
              \<and> associations s' = (if g (associations s) \<noteq> g (uniqueById assoc_id na)
                                   then uniqueById assoc_id na else associations s))"
proof -
  define st where "st = pageRun f g st0 evs"
  define s where "s = advanceTo t st"
  have "sorted ((clock st0 # map fst evs) @ [t])" using assms(3) by simp
  then have srt: "sorted (clock st0 # map fst evs)"
    and "\<forall>x \<in> set (clock st0 # map fst evs). x \<le> t"
    unfolding sorted_append by simp_all
  then have le: "last (clock st0 # map fst evs) \<le> t"
    using last_in_set [of "clock st0 # map fst evs"] by blast
  have idle0: "dragIdle st0" using assms(1,2) by (simp add: dragIdle_def)
  from pageRun_protocol [OF idle0 srt, of f g]
  have P: "dragProtocol (clock st0) evs st" by (simp add: st_def)
  then have cl: "clock st \<le> t" using le by (simp add: dragProtocol_def)
  have flag: "isDraggingRef s \<longleftrightarrow> (\<exists>t0. lastDragTime evs = Some t0 \<and> t < t0 + 200)"
  proof (cases "lastDragTime evs")
    case None
    with P have "dragIdle st" by (simp add: dragProtocol_def)
    then have "dragIdle s" unfolding s_def by (rule advanceTo_idle)
    then show ?thesis using None by (simp add: dragIdle_def)
  next
    case (Some t0)
    show ?thesis
    proof (cases "clock st < t0 + 200")
      case False
      with P Some have "dragIdle st" by (simp add: dragProtocol_def)
      then have "dragIdle s" unfolding s_def by (rule advanceTo_idle)
      then show ?thesis using Some False cl by (simp add: dragIdle_def)
    next
      case True
      with P Some have du: "dragUntil (t0 + 200) st" by (simp add: dragProtocol_def)
      show ?thesis
      proof (cases "t < t0 + 200")
        case True
        from advanceTo_dragging_before [OF du True] show ?thesis
          using Some True by (simp add: s_def dragUntil_def)
      next
        case False
        then have "t0 + 200 \<le> t" by simp
        from advanceTo_dragging_after [OF du this] show ?thesis
          using Some False by (simp add: s_def dragIdle_def)
      qed
    qed
  qed
  show ?thesis
    unfolding Let_def st_def [symmetric] s_def [symmetric]
    using flag handleRealtimeUpdate_dragging [of s f g nc na]
      handleRealtimeUpdate_idle [of s f g nc na]
    by blast
qed

text \<open>
  A drag of class \<^verbatim>\<open>A\<close> at 1000 ms. A snapshot at 1100 ms is ignored (the page shows the
  dragged class); the same snapshot at 1200 ms replaces the classes, without its duplicate.
\<close>

theorem realtime_drag_suppression_witness:
  "\<not> isDraggingRef pageWithA \<and> resetTimers pageWithA = []
   \<and> sorted (clock pageWithA # map fst [(1000, UpdateClassEv ''A'' dragPatch)] @ [1100])
   \<and> isDraggingRef (advanceTo 1100 (pageRun stringifyIds stringifyAssocIds pageWithA
        [(1000, UpdateClassEv ''A'' dragPatch)]))
   \<and> classes (pageRun stringifyIds stringifyAssocIds pageWithA
        [(1000, UpdateClassEv ''A'' dragPatch),
         (1100, RealtimeUpdateEv [mkClass ''B'' ''B'', mkClass ''B'' ''again''] [])])
       = [\<lparr>cls_id = ''A'', cls_name = ''A'', cls_attributes = [],
           cls_position = Some \<lparr>pos_x = 40, pos_y = 60\<rparr>\<rparr>]
   \<and> \<not> isDraggingRef (advanceTo 1200 (pageRun stringifyIds stringifyAssocIds pageWithA
        [(1000, UpdateClassEv ''A'' dragPatch)]))
   \<and> classes (pageRun stringifyIds stringifyAssocIds pageWithA
        [(1000, UpdateClassEv ''A'' dragPatch),
         (1200, RealtimeUpdateEv [mkClass ''B'' ''B'', mkClass ''B'' ''again''] [])])
       = [mkClass ''B'' ''B'']"
proof -
  let ?evs = "[(1000::nat, UpdateClassEv ''A'' dragPatch)]"
  have h1: "\<not> isDraggingRef pageWithA" by code_simp
  have h2: "resetTimers pageWithA = []" by code_simp
  have h3: "sorted (clock pageWithA # map fst ?evs @ [1100])" by code_simp
  have h4: "sorted (clock pageWithA # map fst ?evs @ [1200])" by code_simp
  have l: "lastDragTime ?evs = Some 1000" by code_simp
  have a: "isDraggingRef (advanceTo 1100 (pageRun stringifyIds stringifyAssocIds pageWithA ?evs))"
    using realtime_drag_suppression [OF h1 h2 h3, of stringifyIds stringifyAssocIds "[]" "[]"]
    by (simp add: Let_def l)
  have b: "\<not> isDraggingRef (advanceTo 1200 (pageRun stringifyIds stringifyAssocIds pageWithA ?evs))"
    using realtime_drag_suppression [OF h1 h2 h4, of stringifyIds stringifyAssocIds "[]" "[]"]
    by (simp add: Let_def l)
  have c: "classes (pageRun stringifyIds stringifyAssocIds pageWithA
        [(1000, UpdateClassEv ''A'' dragPatch),
         (1100, RealtimeUpdateEv [mkClass ''B'' ''B'', mkClass ''B'' ''again''] [])])
       = [\<lparr>cls_id = ''A'', cls_name = ''A'', cls_attributes = [],
           cls_position = Some \<lparr>pos_x = 40, pos_y = 60\<rparr>\<rparr>]"
    by code_simp
  have d: "classes (pageRun stringifyIds stringifyAssocIds pageWithA
        [(1000, UpdateClassEv ''A'' dragPatch),
         (1200, RealtimeUpdateEv [mkClass ''B'' ''B'', mkClass ''B'' ''again''] [])])
       = [mkClass ''B'' ''B'']"
    by code_simp
  from h1 h2 h3 a b c d show ?thesis by blast
qed

section \<open>Echo suppression\<close>

text \<open>
  Claim C6 (as amended). A message that parses to an update whose \<^verbatim>\<open>user_id\<close> is present,
  not empty, and equal to the local user id is discarded: \<^verbatim>\<open>onUpdate\<close> is not called, and the
  page state after the message is the page state before it.
\<close>

theorem realtime_echo_suppression:
  assumes "JSON_parse event_data = Some d" and "upd_user_id d = Some u" and "u \<noteq> []"
    and "currentUserId = Some u"
  shows "onmessage trim JSON_parse currentUserId event_data = None
       \<and> receiveMessage trim JSON_parse f g currentUserId event_data st = st"
proof -
  have "onmessage trim JSON_parse currentUserId event_data = None"
    using assms by (simp add: onmessage_def truthy_def)
  then show ?thesis by (simp add: receiveMessage_def)
qed

theorem realtime_echo_suppression_witness:
  "parseAs (updateFrom (Some ''u-42'')) ''data: update'' = Some (updateFrom (Some ''u-42''))
   \<and> upd_user_id (updateFrom (Some ''u-42'')) = Some ''u-42''
   \<and> receiveMessage trimASCII (parseAs (updateFrom (Some ''u-42''))) stringifyIds stringifyAssocIds
        (Some ''u-42'') ''data: update'' pageWithA = pageWithA
   \<and> classes (receiveMessage trimASCII (parseAs (updateFrom (Some ''u-7''))) stringifyIds stringifyAssocIds
        (Some ''u-42'') ''data: update'' pageWithA) = [mkClass ''B'' ''B'']"
proof -
  have p: "parseAs (updateFrom (Some ''u-42'')) ''data: update'' = Some (updateFrom (Some ''u-42''))"
    by (simp add: parseAs_def)
  have u: "upd_user_id (updateFrom (Some ''u-42'')) = Some ''u-42''"
    by (simp add: updateFrom_def)
  have n: "''u-42'' \<noteq> []" by simp
  have o: "classes (receiveMessage trimASCII (parseAs (updateFrom (Some ''u-7''))) stringifyIds stringifyAssocIds
        (Some ''u-42'') ''data: update'' pageWithA) = [mkClass ''B'' ''B'']"
    by code_simp
  have c: "Some ''u-42'' = Some ''u-42''" by simp
  from realtime_echo_suppression
         [where trim = trimASCII and JSON_parse = "parseAs (updateFrom (Some ''u-42''))"
            and event_data = "''data: update''" and d = "updateFrom (Some ''u-42'')"
            and u = "''u-42''" and currentUserId = "Some ''u-42''"
            and f = stringifyIds and g = stringifyAssocIds and st = pageWithA,
          OF p u n c] p u o
  show ?thesis by simp
qed

text \<open>
  With the empty string as user id on both sides the guard \<^verbatim>\<open>data.user_id && ...\<close> is false,
  and the update is applied.
\<close>

theorem realtime_echo_suppression_counterexample:
  "upd_user_id (updateFrom (Some [])) = Some []
   \<and> classes pageWithA = [mkClass ''A'' ''A'']
   \<and> classes (receiveMessage trimASCII (parseAs (updateFrom (Some []))) stringifyIds stringifyAssocIds
        (Some []) ''data: update'' pageWithA) = [mkClass ''B'' ''B'']"
  by code_simp

section \<open>Reconnection of the realtime channel\<close>

lemma syncStep_never_schedules:
  assumes "reconnectAttemptsRef st = 0" and "reconnectTimers st = []"
  shows "reconnectAttemptsRef (syncStep st ev) = 0 \<and> reconnectTimers (syncStep st ev) = []"
  using assms
  by (cases ev)
     (simp_all add: effectRun_def effectCleanup_def onopen_def onerror_def
        reconnectTimerFires_def connect_def clearReconnectTimeout_def split: option.splits)

lemma syncRun_never_schedules:
  "reconnectAttemptsRef (syncRun initialSync evs) = 0 \<and> reconnectTimers (syncRun initialSync evs) = []"
proof (induction evs rule: rev_induct)
  case Nil
  then show ?case by (simp add: syncRun_def initialSync_def)
next
  case (snoc ev evs)
  then show ?case
    using syncStep_never_schedules [of "syncRun initialSync evs" ev] by (simp add: syncRun_def)
qed

text \<open>
  Claim C5. What the connection state machine does: after a successful open and a later close
  no reconnect timer is scheduled and the not-found flag is set, exactly as after a close on
  the first attempt (first and second conjunct); a new run of the effect resets the attempt
  counter and the not-found flag (third conjunct); and after any sequence of events the
  attempt counter is 0 and no reconnect timer is pending, so the branch that schedules a
  retry with a growing delay is never taken (last conjunct).
\<close>

theorem reconnect_after_open_not_scheduled:
  "syncRun initialSync [EffectRun True, OnOpen, OnError CLOSED]
     = \<lparr>eventSourceRef = Some 0, sourcesCreated = 1, reconnectTimeoutRef = None,
        reconnectAttemptsRef = 0, is404ErrorRef = True, reconnectTimers = [],
        nextReconnectHandle = 1\<rparr>
   \<and> syncRun initialSync [EffectRun True, OnError CLOSED]
     = \<lparr>eventSourceRef = Some 0, sourcesCreated = 1, reconnectTimeoutRef = None,
        reconnectAttemptsRef = 0, is404ErrorRef = True, reconnectTimers = [],
        nextReconnectHandle = 1\<rparr>
   \<and> reconnectAttemptsRef (effectRun True st) = 0 \<and> \<not> is404ErrorRef (effectRun True st)
   \<and> reconnectAttemptsRef (syncRun initialSync evs) = 0
   \<and> reconnectTimers (syncRun initialSync evs) = []"
proof -
  have 1: "syncRun initialSync [EffectRun True, OnOpen, OnError CLOSED]
     = \<lparr>eventSourceRef = Some 0, sourcesCreated = 1, reconnectTimeoutRef = None,
        reconnectAttemptsRef = 0, is404ErrorRef = True, reconnectTimers = [],
        nextReconnectHandle = 1\<rparr>"
    by (simp add: syncRun_def initialSync_def effectRun_def onopen_def onerror_def connect_def
        clearReconnectTimeout_def)
  have 2: "syncRun initialSync [EffectRun True, OnError CLOSED]
     = \<lparr>eventSourceRef = Some 0, sourcesCreated = 1, reconnectTimeoutRef = None,
        reconnectAttemptsRef = 0, is404ErrorRef = True, reconnectTimers = [],
        nextReconnectHandle = 1\<rparr>"
    by (simp add: syncRun_def initialSync_def effectRun_def onerror_def connect_def)
  have 3: "reconnectAttemptsRef (effectRun True st) = 0 \<and> \<not> is404ErrorRef (effectRun True st)"
    by (simp add: effectRun_def connect_def)
  from 1 2 3 syncRun_never_schedules [of evs] show ?thesis by simp
qed

section \<open>A response that fails validation\<close>

text \<open>A valid response without associations takes the \<^verbatim>\<open>catch\<close> block: there is no merge, and
  the error is the engine's message.\<close>

lemma modify_valid_without_associations:
  assumes "isValid validation" and "v_diagram validation = Some d" and "json_associations d = None"
    and "\<not> includesStr engineMessage ''overloaded''"
  shows "modifyExistingDiagram toLowerCase engineMessage ec ea (Validated validation)
     = \<lparr>success = False, diagram = None, message = ''Error modifying diagram with AI service'',
        error = Some engineMessage\<rparr>"
  using assms
  by (simp add: modifyExistingDiagram_def modifyExistingDiagramCatch_def mapTypeError_def)

lemma modify_valid_without_associations_example:
  "modifyExistingDiagram toLowerCase ''associations is undefined'' ec ea
       (Validated validWithoutAssociations)
     = \<lparr>success = False, diagram = None, message = ''Error modifying diagram with AI service'',
        error = Some ''associations is undefined''\<rparr>"
  by (simp add: modifyExistingDiagram_def validWithoutAssociations_def
      modifyExistingDiagramCatch_def mapTypeError_def)

text \<open>
  Claim C9. When the validation of the AI response fails, \<^verbatim>\<open>modifyExistingDiagram\<close> returns
  a failure that carries the validation error and no diagram (the merge is not run), and the
  panel's handler leaves the page state, its classes and associations included, as it is
  (first and second conjunct). The handler runs from the button \<^verbatim>\<open>Modify\<close>, which the panel
  offers in modification mode only. It stores the validation error (or, when that is absent or
  empty, the failure message) as the panel's error and stays in modification mode, where the
  panel renders no error: nothing is shown (third conjunct). The stored text would be rendered
  in creation mode (last conjunct).
\<close>

theorem modify_validation_failure_not_rendered:
  assumes "\<not> isValid validation" and "modifyButtonEnabled trim panel"
  shows "modifyExistingDiagram toLowerCase engineMessage ec ea (Validated validation)
           = \<lparr>success = False, diagram = None,
              message = ''Failed to generate valid modified UML diagram'',
              error = v_error validation\<rparr>
       \<and> panelHandleModifyDiagram trim toLowerCase engineMessage h (Validated validation) (panel, page)
           = (panel\<lparr>panel_error :=
                       Some (orElse (v_error validation)
                               ''Failed to generate valid modified UML diagram''),
                     isModifying := False\<rparr>,
              page)
       \<and> renderedError
             (fst (panelHandleModifyDiagram trim toLowerCase engineMessage h (Validated validation)
                (panel, page))) = None
       \<and> renderedError
             ((fst (panelHandleModifyDiagram trim toLowerCase engineMessage h (Validated validation)
                (panel, page)))\<lparr>modificationMode := False\<rparr>)
           = Some (orElse (v_error validation) ''Failed to generate valid modified UML diagram'')"
proof -
  let ?msg = "''Failed to generate valid modified UML diagram''"
  have r: "modifyExistingDiagram toLowerCase engineMessage ec ea (Validated validation)
           = \<lparr>success = False, diagram = None, message = ?msg, error = v_error validation\<rparr>"
    for ec ea
    using assms(1) by (simp add: modifyExistingDiagram_def)
  have b: "\<not> isChatMode panel" "modificationMode panel" "trim (modificationPrompt panel) \<noteq> []"
    using assms(2) by (simp_all add: modifyButtonEnabled_def split: if_splits)
  have o: "orElse (Some ?msg) b = ?msg" for b
    by (simp add: orElse_def)
  have ne: "orElse (v_error validation) ?msg \<noteq> []"
    by (simp add: orElse_def split: option.splits)
  have p: "panelHandleModifyDiagram trim toLowerCase engineMessage h (Validated validation) (panel, page)
           = (panel\<lparr>panel_error := Some (orElse (v_error validation) ?msg), isModifying := False\<rparr>,
              page)"
    using r b(3) o by (simp add: panelHandleModifyDiagram_def Let_def)
  have n: "renderedError (panel\<lparr>panel_error := Some (orElse (v_error validation) ?msg),
             isModifying := False\<rparr>) = None"
    using b by (simp add: renderedError_def)
  have c: "renderedError (panel\<lparr>panel_error := Some (orElse (v_error validation) ?msg),
             isModifying := False, modificationMode := False\<rparr>)
         = Some (orElse (v_error validation) ?msg)"
    using b ne by (simp add: renderedError_def truthy_def)
  show ?thesis unfolding p fst_conv using r n c by simp
qed

theorem modify_validation_failure_not_rendered_witness:
  "\<not> isValid failedValidation \<and> modifyButtonEnabled trimASCII panelWithPrompt
   \<and> modifyExistingDiagram toLowerCaseASCII ''associations is undefined'' (classes pageWithA)
         (associations pageWithA) (Validated failedValidation)
       = \<lparr>success = False, diagram = None,
          message = ''Failed to generate valid modified UML diagram'',
          error = Some ''associations must be an array''\<rparr>
   \<and> panelHandleModifyDiagram trimASCII toLowerCaseASCII ''associations is undefined'' True
         (Validated failedValidation) (panelWithPrompt, pageWithA)
       = (panelWithPrompt\<lparr>panel_error := Some ''associations must be an array''\<rparr>, pageWithA)
   \<and> renderedError (panelWithPrompt\<lparr>panel_error := Some ''associations must be an array''\<rparr>)
       = None"
proof -
  have v: "\<not> isValid failedValidation" by (simp add: failedValidation_def)
  have t: "modifyButtonEnabled trimASCII panelWithPrompt" by code_simp
  have e: "v_error failedValidation = Some ''associations must be an array''"
    by (simp add: failedValidation_def)
  have o: "orElse (Some ''associations must be an array'') b = ''associations must be an array''" for b
    by (simp add: orElse_def)
  have i: "panelWithPrompt\<lparr>panel_error := Some ''associations must be an array'', isModifying := False\<rparr>
      = panelWithPrompt\<lparr>panel_error := Some ''associations must be an array''\<rparr>"
    by (simp add: panelWithPrompt_def)
  have n: "renderedError (panelWithPrompt\<lparr>panel_error := Some ''associations must be an array''\<rparr>)
      = None"
    by (simp add: renderedError_def panelWithPrompt_def)
  from modify_validation_failure_not_rendered
         [where trim = trimASCII and toLowerCase = toLowerCaseASCII
            and engineMessage = "''associations is undefined''" and validation = failedValidation
            and panel = panelWithPrompt and ec = "classes pageWithA"
            and ea = "associations pageWithA" and h = True and page = pageWithA,
          OF v t] v t n
  show ?thesis
    unfolding e o i by simp
qed

end
